theory Spec2Isabelle
  imports Complex_Main "HOL-Library.Sublist"
begin

section \<open>Catalog and dependency expansion (app.py, \<open>DownloaderApp.start_download\<close>)\<close>

text \<open>
  A catalog entry is the JSON object of \<open>plugins.json\<close>; the code reads its keys
  \<open>"name"\<close> and \<open>"url"\<close>. The catalog (\<open>self.download_items\<close>) is a list in file
  order, and nothing in the code forces the names in it to be different.
  \<open>deps_map\<close> is the dictionary of \<open>dependencies.json\<close>, "dict matching name -> list
  of dep names".
\<close>

record catalog_item =
  name :: string
  url :: string

type_synonym deps_map = "string \<rightharpoonup> string list"

text \<open>
  \<^verbatim>\<open>
  def find_item_by_name(name):
      for d in self.download_items:
          if d["name"] == name:
              return d
      return None
  \<close>
\<close>

fun find_item_by_name :: "catalog_item list \<Rightarrow> string \<Rightarrow> catalog_item option" where
  "find_item_by_name [] n = None"
| "find_item_by_name (d # ds) n = (if name d = n then Some d else find_item_by_name ds n)"

text \<open>
  The state of the traversal is the triple of the three local variables
  \<open>(to_process, processed, extra_items)\<close>. \<open>add_deps\<close> is the inner
  \<^verbatim>\<open>for dep_name in deps_map[current_name]\<close> loop:
  \<^verbatim>\<open>
  if dep_name not in processed:
      dep_item = find_item_by_name(dep_name)
      if dep_item:
          extra_items.append(dep_item)
          processed.add(dep_name)
          to_process.append(dep_name)
  \<close>
\<close>

type_synonym expansion = "string list \<times> string set \<times> catalog_item list"

fun add_deps :: "catalog_item list \<Rightarrow> string list \<Rightarrow> expansion \<Rightarrow> expansion" where
  "add_deps catalog [] st = st"
| "add_deps catalog (dep_name # rest) (to_process, processed, extra_items) =
     add_deps catalog rest
       (if dep_name \<notin> processed then
          (case find_item_by_name catalog dep_name of
             Some dep_item \<Rightarrow>
               (to_process @ [dep_name], insert dep_name processed, extra_items @ [dep_item])
           | None \<Rightarrow> (to_process, processed, extra_items))
        else (to_process, processed, extra_items))"

text \<open>One pass of the body of \<^verbatim>\<open>while to_process\<close>, after \<open>pop(0)\<close>.\<close>

definition process_name :: "catalog_item list \<Rightarrow> deps_map \<Rightarrow> string \<Rightarrow> expansion \<Rightarrow> expansion" where
  "process_name catalog deps current_name st =
     (case deps current_name of
        Some dep_names \<Rightarrow> add_deps catalog dep_names st
      | None \<Rightarrow> st)"

definition queue_measure :: "catalog_item list \<Rightarrow> expansion \<Rightarrow> nat" where
  "queue_measure catalog st =
     (case st of (to_process, processed, extra_items) \<Rightarrow>
        length to_process + card (name ` set catalog - processed))"

lemma find_item_by_name_Some:
  "find_item_by_name catalog n = Some d \<Longrightarrow> d \<in> set catalog \<and> name d = n"
  by (induction catalog) (auto split: if_splits)

lemma find_item_by_name_None:
  "find_item_by_name catalog n = None \<longleftrightarrow> n \<notin> name ` set catalog"
  by (induction catalog) auto

lemma card_names_insert:
  assumes "d \<in> set catalog" and "name d \<notin> processed"
  shows "Suc (card (name ` set catalog - insert (name d) processed))
           = card (name ` set catalog - processed)"
proof -
  have fin: "finite (name ` set catalog - processed)" by simp
  have mem: "name d \<in> name ` set catalog - processed" using assms by simp
  have "name ` set catalog - insert (name d) processed
          = (name ` set catalog - processed) - {name d}" by auto
  then show ?thesis using card_Suc_Diff1 [OF fin mem] by simp
qed

lemma add_deps_measure:
  "queue_measure catalog (add_deps catalog dep_names st) = queue_measure catalog st"
proof (induction dep_names arbitrary: st)
  case Nil
  show ?case by simp
next
  case (Cons dep_name rest)
  obtain q p e where st: "st = (q, p, e)" by (cases st)
  show ?case
  proof (cases "dep_name \<in> p")
    case True
    then show ?thesis using Cons.IH [of "(q, p, e)"] by (simp add: st)
  next
    case False
    show ?thesis
    proof (cases "find_item_by_name catalog dep_name")
      case None
      then show ?thesis using False Cons.IH [of "(q, p, e)"] by (simp add: st)
    next
      case (Some d)
      then have d: "d \<in> set catalog" "name d = dep_name"
        using find_item_by_name_Some by blast+
      have "queue_measure catalog (q @ [dep_name], insert dep_name p, e @ [d])
              = queue_measure catalog (q, p, e)"
        using card_names_insert [of d catalog p] d False by (simp add: queue_measure_def)
      then show ?thesis
        using False Some Cons.IH [of "(q @ [dep_name], insert dep_name p, e @ [d])"]
        by (simp add: st)
    qed
  qed
qed

lemma process_name_measure:
  "queue_measure catalog (process_name catalog deps n st) = queue_measure catalog st"
  by (simp add: process_name_def add_deps_measure split: option.splits)

text \<open>
  \<^verbatim>\<open>
  while to_process:
      current_name = to_process.pop(0)
      if current_name in deps_map:
          for dep_name in deps_map[current_name]: ...
  \<close>
  The loop stops: every pass removes one name from the queue, and a name is added to the
  queue only together with its addition to \<open>processed\<close>, which only holds names of the
  catalog that were not there before.
\<close>

function collect_deps :: "catalog_item list \<Rightarrow> deps_map \<Rightarrow> expansion \<Rightarrow> expansion" where
  "collect_deps catalog deps ([], processed, extra_items) = ([], processed, extra_items)"
| "collect_deps catalog deps (current_name # to_process, processed, extra_items) =
     collect_deps catalog deps
       (process_name catalog deps current_name (to_process, processed, extra_items))"
  by pat_completeness auto
termination
proof (relation "measure (\<lambda>(catalog, deps, st). queue_measure catalog st)", goal_cases)
  case 1
  show ?case by simp
next
  case (2 catalog deps current_name to_process processed extra_items)
  have "queue_measure catalog (to_process, processed, extra_items)
          < queue_measure catalog (current_name # to_process, processed, extra_items)"
    by (simp add: queue_measure_def)
  then show ?case by (simp add: process_name_measure)
qed

text \<open>
  The dependency branch of \<open>start_download\<close> (lines 991 to 1023), from the list
  \<open>items_to_download\<close> to its extended value:
  \<^verbatim>\<open>
  to_process = [item["name"] for item in items_to_download]
  processed = set(to_process)
  while to_process: ...
  if extra_items:
      items_to_download.extend(extra_items)
  \<close>
\<close>

definition initial_expansion :: "catalog_item list \<Rightarrow> expansion" where
  "initial_expansion items_to_download =
     (map name items_to_download, set (map name items_to_download), [])"

definition extras :: "catalog_item list \<Rightarrow> deps_map \<Rightarrow> catalog_item list \<Rightarrow> catalog_item list" where
  "extras catalog deps items_to_download =
     snd (snd (collect_deps catalog deps (initial_expansion items_to_download)))"

definition resolve_dependencies ::
  "catalog_item list \<Rightarrow> deps_map \<Rightarrow> catalog_item list \<Rightarrow> catalog_item list" where
  "resolve_dependencies catalog deps items_to_download =
     (let extra_items = extras catalog deps items_to_download
      in if extra_items \<noteq> [] then items_to_download @ extra_items else items_to_download)"

text \<open>
  The selection step before it (line 974):
  \<^verbatim>\<open>
  items_to_download = [
      item for item in self.download_items if item["name"] in self.selected_items
  ]
  \<close>
  \<open>expand\<close> is the two together, the spec's \<open>expand(requested, catalog, depMap)\<close>.
\<close>

definition select_items :: "catalog_item list \<Rightarrow> string list \<Rightarrow> catalog_item list" where
  "select_items catalog selected_items = filter (\<lambda>item. name item \<in> set selected_items) catalog"

definition expand :: "string list \<Rightarrow> catalog_item list \<Rightarrow> deps_map \<Rightarrow> catalog_item list" where
  "expand selected_items catalog deps =
     resolve_dependencies catalog deps (select_items catalog selected_items)"

text \<open>
  The number of passes of the \<^verbatim>\<open>while\<close> loop, counted along the same recursion.
\<close>

function passes :: "catalog_item list \<Rightarrow> deps_map \<Rightarrow> expansion \<Rightarrow> nat" where
  "passes catalog deps ([], processed, extra_items) = 0"
| "passes catalog deps (current_name # to_process, processed, extra_items) =
     Suc (passes catalog deps
            (process_name catalog deps current_name (to_process, processed, extra_items)))"
  by pat_completeness auto
termination
proof (relation "measure (\<lambda>(catalog, deps, st). queue_measure catalog st)", goal_cases)
  case 1
  show ?case by simp
next
  case (2 catalog deps current_name to_process processed extra_items)
  have "queue_measure catalog (to_process, processed, extra_items)
          < queue_measure catalog (current_name # to_process, processed, extra_items)"
    by (simp add: queue_measure_def)
  then show ?case by (simp add: process_name_measure)
qed

subsection \<open>The traversal with its catalog lookups recorded\<close>

text \<open>
  The same two loops, with one more component: the list of the names
  \<open>find_item_by_name\<close> was called with, in order. The call is made exactly when
  \<^verbatim>\<open>dep_name not in processed\<close> holds. Erasing the list gives \<open>add_deps\<close> and
  \<open>collect_deps\<close> back (\<open>add_deps_traced_fst\<close>, \<open>collect_deps_traced_fst\<close>).
\<close>

type_synonym traced = "expansion \<times> string list"

fun add_deps_traced :: "catalog_item list \<Rightarrow> string list \<Rightarrow> traced \<Rightarrow> traced" where
  "add_deps_traced catalog [] st = st"
| "add_deps_traced catalog (dep_name # rest) ((to_process, processed, extra_items), lookups) =
     add_deps_traced catalog rest
       (if dep_name \<notin> processed then
          (case find_item_by_name catalog dep_name of
             Some dep_item \<Rightarrow>
               ((to_process @ [dep_name], insert dep_name processed, extra_items @ [dep_item]),
                lookups @ [dep_name])
           | None \<Rightarrow> ((to_process, processed, extra_items), lookups @ [dep_name]))
        else ((to_process, processed, extra_items), lookups))"

definition process_name_traced :: "catalog_item list \<Rightarrow> deps_map \<Rightarrow> string \<Rightarrow> traced \<Rightarrow> traced" where
  "process_name_traced catalog deps current_name st =
     (case deps current_name of
        Some dep_names \<Rightarrow> add_deps_traced catalog dep_names st
      | None \<Rightarrow> st)"

lemma add_deps_traced_fst:
  "fst (add_deps_traced catalog ds (st, tr)) = add_deps catalog ds st"
proof (induction ds arbitrary: st tr)
  case Nil show ?case by simp
next
  case (Cons n ds)
  obtain q P e where st: "st = (q, P, e)" by (cases st)
  show ?case by (simp add: st Cons.IH split: option.splits)
qed

lemma process_name_traced_fst:
  "fst (process_name_traced catalog deps n (st, tr)) = process_name catalog deps n st"
  by (simp add: process_name_traced_def process_name_def add_deps_traced_fst split: option.splits)

function collect_deps_traced :: "catalog_item list \<Rightarrow> deps_map \<Rightarrow> traced \<Rightarrow> traced" where
  "collect_deps_traced catalog deps (([], processed, extra_items), lookups) =
     (([], processed, extra_items), lookups)"
| "collect_deps_traced catalog deps ((current_name # to_process, processed, extra_items), lookups) =
     collect_deps_traced catalog deps
       (process_name_traced catalog deps current_name ((to_process, processed, extra_items), lookups))"
  by pat_completeness auto
termination
proof (relation "measure (\<lambda>(catalog, deps, st). queue_measure catalog (fst st))", goal_cases)
  case 1
  show ?case by simp
next
  case (2 catalog deps current_name to_process processed extra_items lookups)
  have "queue_measure catalog (to_process, processed, extra_items)
          < queue_measure catalog (current_name # to_process, processed, extra_items)"
    by (simp add: queue_measure_def)
  then show ?case by (simp add: process_name_traced_fst process_name_measure)
qed

lemma collect_deps_traced_fst:
  "fst (collect_deps_traced catalog deps (st, tr)) = collect_deps catalog deps st"
proof (induction catalog deps "(st, tr)" arbitrary: st tr rule: collect_deps_traced.induct)
  case (1 catalog deps processed extra_items lookups)
  show ?case by simp
next
  case (2 catalog deps current_name to_process processed extra_items lookups)
  obtain st' tr' where p: "process_name_traced catalog deps current_name
      ((to_process, processed, extra_items), lookups) = (st', tr')"
    by (cases "process_name_traced catalog deps current_name
      ((to_process, processed, extra_items), lookups)")
  have "st' = process_name catalog deps current_name (to_process, processed, extra_items)"
    using process_name_traced_fst [of catalog deps current_name "(to_process, processed, extra_items)" lookups]
    by (simp add: p)
  then show ?case using 2 [OF p] by (simp add: p)
qed

definition lookups_of :: "catalog_item list \<Rightarrow> deps_map \<Rightarrow> catalog_item list \<Rightarrow> string list" where
  "lookups_of catalog deps items_to_download =
     snd (collect_deps_traced catalog deps (initial_expansion items_to_download, []))"

definition visited_after :: "catalog_item list \<Rightarrow> deps_map \<Rightarrow> catalog_item list \<Rightarrow> string set" where
  "visited_after catalog deps items_to_download =
     fst (snd (fst (collect_deps_traced catalog deps (initial_expansion items_to_download, []))))"

subsection \<open>Breadth-first order, level by level\<close>

text \<open>
  The order the specification asks for, written without a queue: the names found from one
  dependency list (\<open>discover_from\<close>), from a whole level of names in order
  (\<open>discover_level\<close>), and level after level (\<open>bfs_levels\<close>), where a level is
  what the level before it discovered. \<open>visited\<close> starts as the set of requested names
  and grows by the names discovered. These three functions are the reference the queue of
  \<open>collect_deps\<close> is compared with; they are not taken from the code, and they look a
  name up with the library's \<open>find\<close> (the first catalog entry of that name), not with
  the code's \<open>find_item_by_name\<close>.
\<close>

fun discover_from :: "catalog_item list \<Rightarrow> string set \<Rightarrow> string list \<Rightarrow> catalog_item list" where
  "discover_from catalog visited [] = []"
| "discover_from catalog visited (n # ns) =
     (if n \<in> visited then discover_from catalog visited ns
      else (case find (\<lambda>d. name d = n) catalog of
              None \<Rightarrow> discover_from catalog visited ns
            | Some d \<Rightarrow> d # discover_from catalog (insert n visited) ns))"

definition deps_of :: "deps_map \<Rightarrow> string \<Rightarrow> string list" where
  "deps_of deps n = (case deps n of None \<Rightarrow> [] | Some ds \<Rightarrow> ds)"

fun discover_level :: "catalog_item list \<Rightarrow> deps_map \<Rightarrow> string set \<Rightarrow> string list \<Rightarrow> catalog_item list" where
  "discover_level catalog deps visited [] = []"
| "discover_level catalog deps visited (n # frontier) =
     (let found = discover_from catalog visited (deps_of deps n)
      in found @ discover_level catalog deps (visited \<union> set (map name found)) frontier)"

lemma find_item_by_name_find [simp]:
  "find (\<lambda>d. name d = n) catalog = find_item_by_name catalog n"
  by (induction catalog) simp_all

lemma discover_from_names:
  "set (map name (discover_from catalog visited ns)) \<subseteq> name ` set catalog - visited"
  by (induction ns arbitrary: visited) (auto split: option.splits dest: find_item_by_name_Some)

lemma discover_level_names:
  "set (map name (discover_level catalog deps visited frontier)) \<subseteq> name ` set catalog - visited"
proof (induction frontier arbitrary: visited)
  case Nil show ?case by simp
next
  case (Cons n frontier)
  show ?case using discover_from_names [of catalog visited "deps_of deps n"]
     Cons.IH [of "visited \<union> set (map name (discover_from catalog visited (deps_of deps n)))"]
    by (auto simp: Let_def)
qed

function bfs_levels :: "catalog_item list \<Rightarrow> deps_map \<Rightarrow> string set \<Rightarrow> string list \<Rightarrow> catalog_item list" where
  "bfs_levels catalog deps visited frontier =
     (if frontier = [] then []
      else (let found = discover_level catalog deps visited frontier
            in found @ bfs_levels catalog deps (visited \<union> set (map name found)) (map name found)))"
  by pat_completeness auto
termination
proof (relation "measure (\<lambda>(catalog, deps, visited, frontier).
          card (name ` set catalog - visited) + (if frontier = [] then 0 else 1))", goal_cases)
  case 1 show ?case by simp
next
  case (2 catalog deps visited frontier found)
  show ?case
  proof (cases "found = []")
    case True
    then show ?thesis using 2 by simp
  next
    case False
    then obtain d where d: "d \<in> set found" by (cases found) auto
    have sub: "set (map name found) \<subseteq> name ` set catalog - visited"
      using 2 discover_level_names by simp
    have "name ` set catalog - (visited \<union> set (map name found)) \<subset> name ` set catalog - visited"
      using d sub by auto
    then have "card (name ` set catalog - (visited \<union> set (map name found))) < card (name ` set catalog - visited)"
      by (intro psubset_card_mono) simp_all
    then show ?thesis using 2 False by simp
  qed
qed

declare bfs_levels.simps [simp del]

text \<open>Everything discovered from a queue \<open>q\<close> with visited set \<open>P\<close>.\<close>

definition discovered :: "catalog_item list \<Rightarrow> deps_map \<Rightarrow> string list \<Rightarrow> string set \<Rightarrow> catalog_item list" where
  "discovered catalog deps q P =
     (let found = discover_level catalog deps P q
      in found @ bfs_levels catalog deps (P \<union> set (map name found)) (map name found))"

text \<open>A small catalog for the examples.\<close>

definition cat_abc :: "catalog_item list" where
  "cat_abc = [\<lparr>name = ''A'', url = ''https://x/a.jar''\<rparr>,
              \<lparr>name = ''B'', url = ''https://x/b.jar''\<rparr>,
              \<lparr>name = ''C'', url = ''https://x/c.jar''\<rparr>]"

definition cat_abcd :: "catalog_item list" where
  "cat_abcd = [\<lparr>name = ''A'', url = ''https://x/a.jar''\<rparr>,
               \<lparr>name = ''B'', url = ''https://x/b.jar''\<rparr>,
               \<lparr>name = ''C'', url = ''https://x/c.jar''\<rparr>,
               \<lparr>name = ''D'', url = ''https://x/d.jar''\<rparr>]"

text \<open>
  \<open>closed_under catalog deps done P\<close>: every dependency of a name in \<open>done\<close> that
  some catalog entry has is in \<open>P\<close>.
\<close>

definition closed_under :: "catalog_item list \<Rightarrow> deps_map \<Rightarrow> string set \<Rightarrow> string set \<Rightarrow> bool" where
  "closed_under catalog deps done P \<longleftrightarrow>
     (\<forall>k\<in>done. \<forall>n\<in>set (deps_of deps k). n \<in> name ` set catalog \<longrightarrow> n \<in> P)"

subsection \<open>The queue against the levels\<close>

lemma add_deps_discover:
  "add_deps catalog ds (q, P, e) =
     (q @ map name (discover_from catalog P ds),
      P \<union> set (map name (discover_from catalog P ds)),
      e @ discover_from catalog P ds)"
proof (induction ds arbitrary: q P e)
  case Nil show ?case by simp
next
  case (Cons n ds)
  show ?case
    by (auto simp: Cons.IH split: option.splits dest: find_item_by_name_Some)
qed

lemma collect_deps_step:
  "collect_deps catalog deps (n # q, P, e) =
     collect_deps catalog deps
       (q @ map name (discover_from catalog P (deps_of deps n)),
        P \<union> set (map name (discover_from catalog P (deps_of deps n))),
        e @ discover_from catalog P (deps_of deps n))"
  by (simp add: process_name_def deps_of_def add_deps_discover split: option.splits)

lemma collect_deps_levels:
  "collect_deps catalog deps (f @ map name pend, P, e) =
     (let found = discover_level catalog deps P f;
          later = bfs_levels catalog deps (P \<union> set (map name found)) (map name (pend @ found))
      in ([], P \<union> set (map name (found @ later)), e @ found @ later))"
proof (induction "queue_measure catalog (f @ map name pend, P, e)" arbitrary: f pend P e rule: less_induct)
  case less
  have nonempty: "collect_deps catalog deps (n # f' @ map name pend', P', e') =
     (let found = discover_level catalog deps P' (n # f');
          later = bfs_levels catalog deps (P' \<union> set (map name found)) (map name (pend' @ found))
      in ([], P' \<union> set (map name (found @ later)), e' @ found @ later))"
    if m: "queue_measure catalog (n # f' @ map name pend', P', e') \<le> queue_measure catalog (f @ map name pend, P, e)"
    for n f' pend' P' e'
  proof -
    let ?F = "discover_from catalog P' (deps_of deps n)"
    have "queue_measure catalog (f' @ map name (pend' @ ?F), P' \<union> set (map name ?F), e' @ ?F)
            = queue_measure catalog (f' @ map name pend', P', e')"
      using add_deps_measure [of catalog "deps_of deps n" "(f' @ map name pend', P', e')"]
      by (simp add: add_deps_discover)
    also have "\<dots> < queue_measure catalog (n # f' @ map name pend', P', e')"
      by (simp add: queue_measure_def)
    finally have "queue_measure catalog (f' @ map name (pend' @ ?F), P' \<union> set (map name ?F), e' @ ?F)
            < queue_measure catalog (f @ map name pend, P, e)" using m by simp
    from less [OF this]
    have ih: "collect_deps catalog deps (f' @ map name (pend' @ ?F), P' \<union> set (map name ?F), e' @ ?F) =
       (let found = discover_level catalog deps (P' \<union> set (map name ?F)) f';
            later = bfs_levels catalog deps ((P' \<union> set (map name ?F)) \<union> set (map name found))
                      (map name ((pend' @ ?F) @ found))
        in ([], (P' \<union> set (map name ?F)) \<union> set (map name (found @ later)), (e' @ ?F) @ found @ later))" .
    define F where "F = ?F"
    define D where "D = discover_level catalog deps (P' \<union> set (map name F)) f'"
    define L where "L = bfs_levels catalog deps ((P' \<union> set (map name F)) \<union> set (map name D))
                      (map name ((pend' @ F) @ D))"
    have lvl: "discover_level catalog deps P' (n # f') = F @ D"
      by (simp add: F_def D_def Let_def)
    have vis: "P' \<union> set (map name (F @ D)) = (P' \<union> set (map name F)) \<union> set (map name D)"
      by auto
    have L: "bfs_levels catalog deps (P' \<union> set (map name (F @ D))) (map name (pend' @ F @ D)) = L"
      unfolding vis L_def by simp
    have fin: "P' \<union> set (map name ((F @ D) @ L)) = (P' \<union> set (map name F)) \<union> set (map name (D @ L))"
      by auto
    have "collect_deps catalog deps (n # f' @ map name pend', P', e')
            = collect_deps catalog deps (f' @ map name (pend' @ F), P' \<union> set (map name F), e' @ F)"
      using collect_deps_step [of catalog deps n "f' @ map name pend'" P' e']
      by (simp add: F_def)
    also have "\<dots> = ([], (P' \<union> set (map name F)) \<union> set (map name (D @ L)), (e' @ F) @ D @ L)"
      using ih unfolding F_def [symmetric] D_def [symmetric] Let_def L_def [symmetric] .
    finally show ?thesis
      unfolding lvl Let_def L fin by simp
  qed
  show ?case
  proof (cases f)
    case (Cons n f')
    show ?thesis using nonempty [of n f' pend P e] by (simp add: Cons)
  next
    case Nil
    show ?thesis
    proof (cases pend)
      case Nil': Nil
      show ?thesis by (simp add: Nil Nil' bfs_levels.simps)
    next
      case (Cons p ps)
      define DL where "DL = discover_level catalog deps P (map name pend)"
      define L2 where "L2 = bfs_levels catalog deps (P \<union> set (map name DL)) (map name DL)"
      have "collect_deps catalog deps (name p # map name ps @ map name [], P, e) =
         (let found = discover_level catalog deps P (name p # map name ps);
          later = bfs_levels catalog deps (P \<union> set (map name found)) (map name ([] @ found))
      in ([], P \<union> set (map name (found @ later)), e @ found @ later))"
        using nonempty [of "name p" "map name ps" "[]" P e] by (simp add: Nil Cons)
      then have lhs: "collect_deps catalog deps (map name pend, P, e)
                        = ([], P \<union> set (map name (DL @ L2)), e @ DL @ L2)"
        unfolding Let_def DL_def L2_def Cons by simp
      have ne: "pend \<noteq> []" using Cons by simp
      have "bfs_levels catalog deps P (map name pend) = DL @ L2"
        unfolding DL_def L2_def
        by (subst bfs_levels.simps) (simp add: ne Let_def)
      then have rhs: "bfs_levels catalog deps (P \<union> set (map name [])) (map name (pend @ [])) = DL @ L2"
        by simp
      show ?thesis
        unfolding Nil discover_level.simps Let_def rhs append_Nil lhs by simp
    qed
  qed
qed

lemma discover_from_subset: "set (discover_from catalog visited ns) \<subseteq> set catalog"
  by (induction ns arbitrary: visited) (auto split: option.splits dest: find_item_by_name_Some)

lemma discover_level_subset: "set (discover_level catalog deps visited frontier) \<subseteq> set catalog"
proof (induction frontier arbitrary: visited)
  case Nil show ?case by simp
next
  case (Cons n frontier)
  show ?case using discover_from_subset [of catalog visited "deps_of deps n"] Cons.IH
    by (auto simp: Let_def)
qed

lemma bfs_levels_subset: "set (bfs_levels catalog deps visited frontier) \<subseteq> set catalog"
proof (induction catalog deps visited frontier rule: bfs_levels.induct)
  case (1 catalog deps visited frontier)
  show ?case
  proof (cases "frontier = []")
    case True
    then show ?thesis by (simp add: bfs_levels.simps)
  next
    case False
    then show ?thesis
      using 1 [OF False refl] discover_level_subset [of catalog deps visited frontier]
      by (subst bfs_levels.simps) (simp add: Let_def)
  qed
qed

lemma discover_from_distinct: "distinct (map name (discover_from catalog visited ns))"
proof (induction ns arbitrary: visited)
  case Nil show ?case by simp
next
  case (Cons n ns)
  show ?case
    using Cons.IH discover_from_names [of catalog "insert n visited" ns]
    by (auto split: option.splits dest: find_item_by_name_Some)
qed

lemma discover_level_distinct: "distinct (map name (discover_level catalog deps visited frontier))"
proof (induction frontier arbitrary: visited)
  case Nil show ?case by simp
next
  case (Cons n frontier)
  let ?F = "discover_from catalog visited (deps_of deps n)"
  show ?case
    using Cons.IH [of "visited \<union> set (map name ?F)"] discover_from_distinct [of catalog visited "deps_of deps n"]
      discover_level_names [of catalog deps "visited \<union> set (map name ?F)" frontier]
    by (auto simp: Let_def)
qed

lemma bfs_levels_names:
  "set (map name (bfs_levels catalog deps visited frontier)) \<subseteq> name ` set catalog - visited"
proof (induction catalog deps visited frontier rule: bfs_levels.induct)
  case (1 catalog deps visited frontier)
  show ?case
  proof (cases "frontier = []")
    case True
    then show ?thesis by (simp add: bfs_levels.simps)
  next
    case False
    then show ?thesis
      using 1 [OF False refl] discover_level_names [of catalog deps visited frontier]
      by (subst bfs_levels.simps) (auto simp: Let_def)
  qed
qed

lemma bfs_levels_distinct: "distinct (map name (bfs_levels catalog deps visited frontier))"
proof (induction catalog deps visited frontier rule: bfs_levels.induct)
  case (1 catalog deps visited frontier)
  show ?case
  proof (cases "frontier = []")
    case True
    then show ?thesis by (simp add: bfs_levels.simps)
  next
    case False
    let ?D = "discover_level catalog deps visited frontier"
    show ?thesis
      using 1 [OF False refl] False discover_level_distinct [of catalog deps visited frontier]
        bfs_levels_names [of catalog deps "visited \<union> set (map name ?D)" "map name ?D"]
      by (subst bfs_levels.simps) (auto simp: Let_def)
  qed
qed

lemma collect_deps_initial:
  "collect_deps catalog deps (initial_expansion items) =
     ([],
      set (map name items)
        \<union> set (map name (bfs_levels catalog deps (set (map name items)) (map name items))),
      bfs_levels catalog deps (set (map name items)) (map name items))"
  using collect_deps_levels [of catalog deps "[]" items "set (map name items)" "[]"]
  by (simp add: initial_expansion_def Let_def)

lemma extras_bfs:
  "extras catalog deps items = bfs_levels catalog deps (set (map name items)) (map name items)"
  by (simp add: extras_def collect_deps_initial)

lemma resolve_dependencies_append:
  "resolve_dependencies catalog deps items = items @ extras catalog deps items"
  by (simp add: resolve_dependencies_def Let_def)

lemma select_items_names:
  "name ` set (select_items catalog selected_items) = set selected_items \<inter> name ` set catalog"
  by (auto simp: select_items_def)

lemma select_items_distinct:
  "distinct (map name catalog) \<Longrightarrow> distinct (map name (select_items catalog selected_items))"
  by (simp add: select_items_def distinct_map_filter)

lemma process_name_discover:
  "process_name catalog deps n (q, P, e) =
     (q @ map name (discover_from catalog P (deps_of deps n)),
      P \<union> set (map name (discover_from catalog P (deps_of deps n))),
      e @ discover_from catalog P (deps_of deps n))"
  by (simp add: process_name_def deps_of_def add_deps_discover split: option.splits)

lemma passes_count:
  "passes catalog deps st + length (snd (snd st))
     = length (fst st) + length (snd (snd (collect_deps catalog deps st)))"
proof (induction catalog deps st rule: collect_deps.induct)
  case (1 catalog deps processed extra_items)
  show ?case by simp
next
  case (2 catalog deps current_name to_process processed extra_items)
  then show ?case
    by (simp add: process_name_discover)
qed

lemma passes_result:
  "passes catalog deps (initial_expansion items) = length (resolve_dependencies catalog deps items)"
  using passes_count [of catalog deps "initial_expansion items"]
  by (simp add: resolve_dependencies_append extras_def) (simp add: initial_expansion_def)

lemma extras_bound:
  "length (extras catalog deps items) \<le> card (name ` set catalog - name ` set items)"
proof -
  let ?E = "extras catalog deps items"
  have "length ?E = length (map name ?E)" by simp
  also have "\<dots> = card (set (map name ?E))"
    using distinct_card [of "map name ?E"] by (simp add: extras_bfs bfs_levels_distinct)
  also have "\<dots> \<le> card (name ` set catalog - name ` set items)"
    using bfs_levels_names [of catalog deps "set (map name items)" "map name items"]
    by (intro card_mono) (simp_all add: extras_bfs)
  finally show ?thesis .
qed

lemma select_single:
  "distinct (map name catalog) \<Longrightarrow> find_item_by_name catalog n = Some d \<Longrightarrow>
     select_items catalog [n] = [d]"
proof (induction catalog)
  case Nil then show ?case by simp
next
  case (Cons c cs)
  show ?case
  proof (cases "name c = n")
    case True
    then have "n \<notin> name ` set cs" using Cons.prems by auto
    then have "filter (\<lambda>item. name item = n) cs = []" by (auto simp: filter_empty_conv)
    then show ?thesis using True Cons.prems by (simp add: select_items_def)
  next
    case False
    then show ?thesis using Cons by (simp add: select_items_def)
  qed
qed

lemma add_deps_traced_count:
  "n \<notin> P \<Longrightarrow> n \<notin> name ` set catalog \<Longrightarrow>
     count_list (snd (add_deps_traced catalog ds ((q, P, e), tr))) n = count_list tr n + count_list ds n"
proof (induction ds arbitrary: q P e tr)
  case Nil show ?case by simp
next
  case (Cons d ds)
  show ?case
  proof (cases "d \<in> P")
    case True
    then have "d \<noteq> n" using Cons.prems by auto
    then show ?thesis using True Cons by simp
  next
    case False
    show ?thesis
    proof (cases "find_item_by_name catalog d")
      case None
      then show ?thesis using False Cons by simp
    next
      case (Some i)
      then have "d \<in> name ` set catalog" using find_item_by_name_Some by force
      then have dn: "d \<noteq> n" using Cons.prems by auto
      then have "n \<notin> insert d P" using Cons.prems by simp
      from Cons.IH [OF this Cons.prems(2)] show ?thesis using False Some dn by simp
    qed
  qed
qed

lemma collect_deps_discovered:
  "collect_deps catalog deps (q, P, e) =
     ([], P \<union> set (map name (discovered catalog deps q P)), e @ discovered catalog deps q P)"
  using collect_deps_levels [of catalog deps q "[]" P e]
  by (simp add: discovered_def Let_def)

lemma discovered_Cons:
  "discovered catalog deps (k # q) P =
     discover_from catalog P (deps_of deps k)
       @ discovered catalog deps (q @ map name (discover_from catalog P (deps_of deps k)))
           (P \<union> set (map name (discover_from catalog P (deps_of deps k))))"
proof -
  let ?F = "discover_from catalog P (deps_of deps k)"
  have "collect_deps catalog deps (k # q, P, []) =
          collect_deps catalog deps (q @ map name ?F, P \<union> set (map name ?F), [] @ ?F)"
    by (rule collect_deps_step)
  then have "snd (snd (collect_deps catalog deps (k # q, P, []))) =
          snd (snd (collect_deps catalog deps (q @ map name ?F, P \<union> set (map name ?F), ?F)))"
    by simp
  then show ?thesis
    unfolding collect_deps_discovered by simp
qed

lemma discovered_names:
  "set (map name (discovered catalog deps q P)) \<subseteq> name ` set catalog"
  using discover_level_subset [of catalog deps P q]
    bfs_levels_subset [of catalog deps "P \<union> set (map name (discover_level catalog deps P q))"
       "map name (discover_level catalog deps P q)"]
  by (simp add: discovered_def Let_def) blast

lemma process_name_traced_count:
  "n \<notin> P \<Longrightarrow> n \<notin> name ` set catalog \<Longrightarrow>
     count_list (snd (process_name_traced catalog deps k ((q, P, e), tr))) n
       = count_list tr n + count_list (deps_of deps k) n"
  by (simp add: process_name_traced_def deps_of_def add_deps_traced_count split: option.splits)

lemma collect_deps_traced_count:
  "n \<notin> P \<Longrightarrow> n \<notin> name ` set catalog \<Longrightarrow>
     count_list (snd (collect_deps_traced catalog deps ((q, P, e), tr))) n
       = count_list tr n
         + (\<Sum>k\<leftarrow>q @ map name (discovered catalog deps q P). count_list (deps_of deps k) n)"
proof (induction catalog deps "((q, P, e), tr)" arbitrary: q P e tr rule: collect_deps_traced.induct)
  case (1 catalog deps processed extra_items lookups)
  show ?case by (simp add: discovered_def bfs_levels.simps)
next
  case (2 catalog deps k q P e tr)
  let ?F = "discover_from catalog P (deps_of deps k)"
  obtain tr' where p: "process_name_traced catalog deps k ((q, P, e), tr)
      = ((q @ map name ?F, P \<union> set (map name ?F), e @ ?F), tr')"
    using process_name_traced_fst [of catalog deps k "(q, P, e)" tr]
    by (cases "process_name_traced catalog deps k ((q, P, e), tr)") (simp add: process_name_discover)
  have tr': "count_list tr' n = count_list tr n + count_list (deps_of deps k) n"
    using process_name_traced_count [OF "2.prems", of deps k q e tr] by (simp add: p)
  have "set (map name ?F) \<subseteq> name ` set catalog"
    using discover_from_subset [of catalog P "deps_of deps k"] by auto
  then have notin: "n \<notin> P \<union> set (map name ?F)" using "2.prems" by auto
  have "count_list (snd (collect_deps_traced catalog deps ((k # q, P, e), tr))) n
          = count_list (snd (collect_deps_traced catalog deps
              ((q @ map name ?F, P \<union> set (map name ?F), e @ ?F), tr'))) n"
    by (simp add: p)
  also have "\<dots> = count_list tr' n
         + (\<Sum>j\<leftarrow>(q @ map name ?F) @ map name (discovered catalog deps (q @ map name ?F) (P \<union> set (map name ?F))).
              count_list (deps_of deps j) n)"
    using "2.hyps" [OF p notin "2.prems"(2)] .
  finally show ?case
    by (simp add: tr' discovered_Cons)
qed


lemma extras_discovered:
  "extras catalog deps items = discovered catalog deps (map name items) (set (map name items))"
  by (simp add: extras_def initial_expansion_def collect_deps_discovered)

lemma discover_from_complete:
  "n \<in> set ds \<Longrightarrow> n \<in> name ` set catalog \<Longrightarrow>
     n \<in> P \<union> set (map name (discover_from catalog P ds))"
proof (induction ds arbitrary: P)
  case Nil then show ?case by simp
next
  case (Cons d ds)
  show ?case
  proof (cases "n = d")
    case True
    show ?thesis
    proof (cases "d \<in> P")
      case inP: True
      then show ?thesis using True by simp
    next
      case notP: False
      obtain i where i: "find_item_by_name catalog d = Some i"
        using Cons.prems(2) True find_item_by_name_None [of catalog d] by (cases "find_item_by_name catalog d") auto
      then have "name i = d" using find_item_by_name_Some by blast
      then show ?thesis using True notP i by simp
    qed
  next
    case False
    then have n: "n \<in> set ds" using Cons.prems(1) by simp
    show ?thesis
      using Cons.IH [OF n Cons.prems(2), of P] Cons.IH [OF n Cons.prems(2), of "insert d P"] False
      by (auto split: option.splits)
  qed
qed

lemma collect_deps_closed:
  "closed_under catalog deps (P - set q) P \<Longrightarrow>
     closed_under catalog deps (fst (snd (collect_deps catalog deps (q, P, e))))
       (fst (snd (collect_deps catalog deps (q, P, e))))"
proof (induction catalog deps "(q, P, e)" arbitrary: q P e rule: collect_deps.induct)
  case (1 catalog deps processed extra_items)
  then show ?case by simp
next
  case (2 catalog deps k q P e)
  let ?F = "discover_from catalog P (deps_of deps k)"
  have step: "process_name catalog deps k (q, P, e)
      = (q @ map name ?F, P \<union> set (map name ?F), e @ ?F)"
    by (rule process_name_discover)
  have "closed_under catalog deps ((P \<union> set (map name ?F)) - set (q @ map name ?F))
          (P \<union> set (map name ?F))"
    unfolding closed_under_def
  proof (intro ballI impI)
    fix j n
    assume j: "j \<in> P \<union> set (map name ?F) - set (q @ map name ?F)"
      and n: "n \<in> set (deps_of deps j)" "n \<in> name ` set catalog"
    show "n \<in> P \<union> set (map name ?F)"
    proof (cases "j = k")
      case True
      then show ?thesis using discover_from_complete [of n "deps_of deps k" catalog P] n by simp
    next
      case False
      then have "j \<in> P - set (k # q)" using j by auto
      then show ?thesis using "2.prems" n unfolding closed_under_def by blast
    qed
  qed
  from "2.hyps" [OF step this] show ?case by (simp add: step)
qed

lemma resolve_dependencies_closed:
  "closed_under catalog deps (name ` set (resolve_dependencies catalog deps items))
     (name ` set (resolve_dependencies catalog deps items))"
proof -
  have "closed_under catalog deps (set (map name items) - set (map name items)) (set (map name items))"
    by (simp add: closed_under_def)
  from collect_deps_closed [OF this, of "[]"]
  show ?thesis
    using collect_deps_initial [of catalog deps items]
    by (simp add: initial_expansion_def resolve_dependencies_append extras_bfs image_Un)
qed

lemma discover_from_first_entry:
  "d \<in> set (discover_from catalog visited ns) \<Longrightarrow> find_item_by_name catalog (name d) = Some d"
proof (induction ns arbitrary: visited)
  case Nil then show ?case by simp
next
  case (Cons n ns)
  then show ?case
    by (auto split: if_splits option.splits dest: find_item_by_name_Some)
qed

lemma discover_level_first_entry:
  "d \<in> set (discover_level catalog deps visited frontier) \<Longrightarrow>
     find_item_by_name catalog (name d) = Some d"
proof (induction frontier arbitrary: visited)
  case Nil then show ?case by simp
next
  case (Cons n frontier)
  then show ?case using discover_from_first_entry by (auto simp: Let_def)
qed

lemma bfs_levels_first_entry:
  "d \<in> set (bfs_levels catalog deps visited frontier) \<Longrightarrow>
     find_item_by_name catalog (name d) = Some d"
proof (induction catalog deps visited frontier rule: bfs_levels.induct)
  case (1 catalog deps visited frontier)
  show ?case
  proof (cases "frontier = []")
    case True
    then show ?thesis using "1.prems" by (simp add: bfs_levels.simps)
  next
    case False
    have "d \<in> set (discover_level catalog deps visited frontier)
          \<or> d \<in> set (bfs_levels catalog deps
                 (visited \<union> set (map name (discover_level catalog deps visited frontier)))
                 (map name (discover_level catalog deps visited frontier)))"
      using "1.prems" False by (subst (asm) bfs_levels.simps) (simp add: Let_def)
    then show ?thesis
      using "1.IH" [OF False refl] discover_level_first_entry by blast
  qed
qed

subsection \<open>Properties of the expansion\<close>

text \<open>
  Claim C1. For every selection, every catalog and every dependency map, the expansion has
  no two items of the same name, and every selected name that the catalog has is the name of
  an item of the expansion. The first half is about a catalog as the data model has it, with
  names unique within the catalog: the selected items are copied from the catalog as they
  are, so the result repeats whatever name the catalog itself repeats.
\<close>

theorem expand_no_duplicates:
  "(distinct (map name catalog) \<longrightarrow> distinct (map name (expand selected_items catalog deps)))
   \<and> set selected_items \<inter> name ` set catalog \<subseteq> name ` set (expand selected_items catalog deps)"
proof
  let ?items = "select_items catalog selected_items"
  show "distinct (map name catalog) \<longrightarrow> distinct (map name (expand selected_items catalog deps))"
  proof
    assume "distinct (map name catalog)"
    then have "distinct (map name ?items)" by (rule select_items_distinct)
    moreover have "distinct (map name (extras catalog deps ?items))"
      by (simp add: extras_bfs bfs_levels_distinct)
    moreover have "set (map name ?items) \<inter> set (map name (extras catalog deps ?items)) = {}"
      using bfs_levels_names [of catalog deps "set (map name ?items)" "map name ?items"]
      by (auto simp: extras_bfs)
    ultimately show "distinct (map name (expand selected_items catalog deps))"
      by (simp add: expand_def resolve_dependencies_append)
  qed
  show "set selected_items \<inter> name ` set catalog \<subseteq> name ` set (expand selected_items catalog deps)"
    using select_items_names [of catalog selected_items]
    by (auto simp: expand_def resolve_dependencies_append)
qed

theorem expand_no_duplicates_witness:
  "distinct (map name cat_abc)
   \<and> distinct (map name (expand [''C'', ''A''] cat_abc [''A'' \<mapsto> [''B'', ''B'', ''Z''], ''B'' \<mapsto> [''A'', ''C'']]))
   \<and> set [''C'', ''A''] \<inter> name ` set cat_abc
        \<subseteq> name ` set (expand [''C'', ''A''] cat_abc [''A'' \<mapsto> [''B'', ''B'', ''Z''], ''B'' \<mapsto> [''A'', ''C'']])"
proof -
  have d: "distinct (map name cat_abc)" by (simp add: cat_abc_def)
  show ?thesis
    using d expand_no_duplicates
      [of cat_abc "[''C'', ''A'']" "[''A'' \<mapsto> [''B'', ''B'', ''Z''], ''B'' \<mapsto> [''A'', ''C'']]"]
    by blast
qed

text \<open>
  A catalog that repeats a name is outside the data model; the selection copies both of
  its entries, and the expansion leaves them as they are.
\<close>

lemma expand_repeated_catalog_name:
  "map name (expand [''A''] [\<lparr>name = ''A'', url = ''https://x/a1.jar''\<rparr>,
                             \<lparr>name = ''A'', url = ''https://x/a2.jar''\<rparr>] Map.empty)
     = [''A'', ''A'']"
  by (simp add: expand_def resolve_dependencies_def extras_def initial_expansion_def
        select_items_def process_name_def)

text \<open>
  Claim C2. A name that no catalog item has is never the name of an item of the expansion,
  whatever the dependency map says about it; looking it up gives \<open>None\<close>, and the
  traversal goes on. The expansion has no error result: the one subscript of the loop,
  \<^verbatim>\<open>deps_map[current_name]\<close>, is behind \<^verbatim>\<open>if current_name in deps_map\<close>.
\<close>

theorem expand_skips_missing:
  "n \<notin> name ` set catalog \<Longrightarrow>
     find_item_by_name catalog n = None \<and> n \<notin> name ` set (expand selected_items catalog deps)"
proof -
  have "set (expand selected_items catalog deps) \<subseteq> set catalog"
    using bfs_levels_subset [of catalog deps]
    by (auto simp: expand_def resolve_dependencies_append extras_bfs select_items_def)
  then show "n \<notin> name ` set catalog \<Longrightarrow>
     find_item_by_name catalog n = None \<and> n \<notin> name ` set (expand selected_items catalog deps)"
    by (auto simp: find_item_by_name_None)
qed

theorem expand_skips_missing_witness:
  "''Z'' \<notin> name ` set cat_abc
   \<and> find_item_by_name cat_abc ''Z'' = None
   \<and> ''Z'' \<notin> name ` set (expand [''A''] cat_abc [''A'' \<mapsto> [''Z'', ''B''], ''Z'' \<mapsto> [''C'']])
   \<and> expand [''A''] cat_abc [''A'' \<mapsto> [''Z'', ''B''], ''Z'' \<mapsto> [''C'']]
        = [\<lparr>name = ''A'', url = ''https://x/a.jar''\<rparr>, \<lparr>name = ''B'', url = ''https://x/b.jar''\<rparr>]"
proof -
  have z: "''Z'' \<notin> name ` set cat_abc" by (simp add: cat_abc_def)
  have e: "expand [''A''] cat_abc [''A'' \<mapsto> [''Z'', ''B''], ''Z'' \<mapsto> [''C'']]
        = [\<lparr>name = ''A'', url = ''https://x/a.jar''\<rparr>, \<lparr>name = ''B'', url = ''https://x/b.jar''\<rparr>]"
    by (simp add: expand_def resolve_dependencies_def extras_def initial_expansion_def
          select_items_def cat_abc_def process_name_def)
  show ?thesis
    using z e expand_skips_missing
      [OF z, of "[''A'']" "[''A'' \<mapsto> [''Z'', ''B''], ''Z'' \<mapsto> [''C'']]"]
    by simp
qed

text \<open>
  A run in which an absent name is reached twice: \<open>X\<close> is in the dependency lists of
  \<open>A\<close> and of \<open>B\<close> and in no catalog item. It is looked up both times, and it is not
  in \<open>processed\<close> at the end.
\<close>

theorem missing_name_counterexample:
  "find_item_by_name cat_abc ''X'' = None
   \<and> lookups_of cat_abc [''A'' \<mapsto> [''X'', ''B''], ''B'' \<mapsto> [''X'', ''A'']] (select_items cat_abc [''A''])
        = [''X'', ''B'', ''X'']
   \<and> ''X'' \<notin> visited_after cat_abc [''A'' \<mapsto> [''X'', ''B''], ''B'' \<mapsto> [''X'', ''A'']]
                (select_items cat_abc [''A''])"
  by (simp add: lookups_of_def visited_after_def initial_expansion_def select_items_def cat_abc_def
        process_name_traced_def)

text \<open>
  Claim C3, as the code has it. Only a name that is found is added to \<open>processed\<close>, to
  the result and to the queue: the visited set at the end is the set of names of the result,
  and one dependency list changes the state by exactly the items it discovers, all of them
  catalog items. A name that is not found is left unmarked, and is looked up once more
  for each occurrence in the dependency list of each name the loop processes.
\<close>

theorem missing_name_looked_up_again:
  "visited_after catalog deps items = set (map name (resolve_dependencies catalog deps items))
   \<and> set (extras catalog deps items) \<subseteq> set catalog
   \<and> add_deps catalog ds (q, P, e) =
        (q @ map name (discover_from catalog P ds),
         P \<union> set (map name (discover_from catalog P ds)),
         e @ discover_from catalog P ds)
   \<and> set (discover_from catalog P ds) \<subseteq> set catalog
   \<and> (n \<notin> name ` set catalog \<and> n \<notin> name ` set items \<longrightarrow>
        n \<notin> visited_after catalog deps items
        \<and> count_list (lookups_of catalog deps items) n
            = (\<Sum>k\<leftarrow>map name (resolve_dependencies catalog deps items). count_list (deps_of deps k) n))"
proof (intro conjI impI)
  have fst_eq: "fst (collect_deps_traced catalog deps (initial_expansion items, []))
                  = collect_deps catalog deps (initial_expansion items)"
    by (rule collect_deps_traced_fst)
  show v: "visited_after catalog deps items = set (map name (resolve_dependencies catalog deps items))"
    by (simp add: visited_after_def fst_eq collect_deps_initial resolve_dependencies_append extras_bfs)
  show sub: "set (extras catalog deps items) \<subseteq> set catalog"
    by (simp add: extras_bfs bfs_levels_subset)
  show "add_deps catalog ds (q, P, e) =
        (q @ map name (discover_from catalog P ds),
         P \<union> set (map name (discover_from catalog P ds)),
         e @ discover_from catalog P ds)"
    by (rule add_deps_discover)
  show "set (discover_from catalog P ds) \<subseteq> set catalog"
    by (rule discover_from_subset)
  assume n: "n \<notin> name ` set catalog \<and> n \<notin> name ` set items"
  show "n \<notin> visited_after catalog deps items"
    using n sub by (auto simp: v resolve_dependencies_append)
  have "count_list (snd (collect_deps_traced catalog deps
            ((map name items, set (map name items), []), []))) n
       = count_list [] n
         + (\<Sum>k\<leftarrow>map name items @ map name (discovered catalog deps (map name items) (set (map name items))).
              count_list (deps_of deps k) n)"
    using n by (intro collect_deps_traced_count) simp_all
  then show "count_list (lookups_of catalog deps items) n
            = (\<Sum>k\<leftarrow>map name (resolve_dependencies catalog deps items). count_list (deps_of deps k) n)"
    by (simp add: lookups_of_def initial_expansion_def resolve_dependencies_append extras_discovered)
qed

theorem missing_name_looked_up_again_witness:
  "''X'' \<notin> name ` set cat_abc \<and> ''X'' \<notin> name ` set (select_items cat_abc [''A''])
   \<and> ''X'' \<notin> visited_after cat_abc [''A'' \<mapsto> [''X'', ''B''], ''B'' \<mapsto> [''X'', ''A'']]
                (select_items cat_abc [''A''])
   \<and> count_list (lookups_of cat_abc [''A'' \<mapsto> [''X'', ''B''], ''B'' \<mapsto> [''X'', ''A'']]
                   (select_items cat_abc [''A''])) ''X'' = 2"
proof -
  let ?deps = "[''A'' \<mapsto> [''X'', ''B''], ''B'' \<mapsto> [''X'', ''A'']]"
  let ?items = "select_items cat_abc [''A'']"
  have h: "''X'' \<notin> name ` set cat_abc \<and> ''X'' \<notin> name ` set ?items"
    by (simp add: cat_abc_def select_items_def)
  have r: "map name (resolve_dependencies cat_abc ?deps ?items) = [''A'', ''B'']"
    by (simp add: resolve_dependencies_def extras_def initial_expansion_def select_items_def
          cat_abc_def process_name_def)
  have "(\<Sum>k\<leftarrow>[''A'', ''B'']. count_list (deps_of ?deps k) ''X'') = 2"
    by (simp add: deps_of_def)
  then show ?thesis
    using h r missing_name_looked_up_again [of cat_abc ?deps ?items _ _ _ _ "''X''"]
    by simp
qed

text \<open>
  Claim C4. The expansion is the list of requested items as the caller gave it, followed by
  the extra items in breadth-first order of first discovery: the items discovered from the
  requested names in order, then the items discovered from those, and so on. Every extra
  item is the first catalog entry of its name and is not a requested one; and every
  dependency of an item of the expansion that the catalog has is in the expansion.
\<close>

theorem expand_breadth_first:
  "resolve_dependencies catalog deps items_to_download =
     items_to_download
       @ bfs_levels catalog deps (set (map name items_to_download)) (map name items_to_download)
   \<and> (\<forall>d\<in>set (bfs_levels catalog deps (set (map name items_to_download))
                  (map name items_to_download)).
         find (\<lambda>x. name x = name d) catalog = Some d
         \<and> name d \<notin> name ` set items_to_download)
   \<and> (k \<in> name ` set (resolve_dependencies catalog deps items_to_download)
        \<and> deps k = Some ds \<and> n \<in> set ds \<and> find (\<lambda>x. name x = n) catalog = Some d \<longrightarrow>
        n \<in> name ` set (resolve_dependencies catalog deps items_to_download))"
proof (intro conjI ballI impI)
  show "resolve_dependencies catalog deps items_to_download =
     items_to_download
       @ bfs_levels catalog deps (set (map name items_to_download)) (map name items_to_download)"
    by (simp add: resolve_dependencies_append extras_bfs)
next
  fix d assume "d \<in> set (bfs_levels catalog deps (set (map name items_to_download))
                  (map name items_to_download))"
  then show "find (\<lambda>x. name x = name d) catalog = Some d"
    and "name d \<notin> name ` set items_to_download"
    using bfs_levels_first_entry
      bfs_levels_names [of catalog deps "set (map name items_to_download)" "map name items_to_download"]
    by auto
next
  assume h: "k \<in> name ` set (resolve_dependencies catalog deps items_to_download)
        \<and> deps k = Some ds \<and> n \<in> set ds \<and> find (\<lambda>x. name x = n) catalog = Some d"
  then have "n \<in> name ` set catalog" using find_item_by_name_Some [of catalog n d] by auto
  moreover have "n \<in> set (deps_of deps k)" using h by (simp add: deps_of_def)
  ultimately show "n \<in> name ` set (resolve_dependencies catalog deps items_to_download)"
    using resolve_dependencies_closed [of catalog deps items_to_download] h
    unfolding closed_under_def by blast
qed

theorem expand_breadth_first_witness:
  "''C'' \<in> name ` set (resolve_dependencies cat_abcd
              [''A'' \<mapsto> [''C'', ''B''], ''C'' \<mapsto> [''D'', ''Z''], ''B'' \<mapsto> [''D'', ''A'']]
              [\<lparr>name = ''A'', url = ''https://x/a.jar''\<rparr>])
   \<and> [''A'' \<mapsto> [''C'', ''B''], ''C'' \<mapsto> [''D'', ''Z''], ''B'' \<mapsto> [''D'', ''A'']] ''C''
        = Some [''D'', ''Z'']
   \<and> ''D'' \<in> set [''D'', ''Z'']
   \<and> find (\<lambda>x. name x = ''D'') cat_abcd = Some \<lparr>name = ''D'', url = ''https://x/d.jar''\<rparr>
   \<and> ''D'' \<in> name ` set (resolve_dependencies cat_abcd
              [''A'' \<mapsto> [''C'', ''B''], ''C'' \<mapsto> [''D'', ''Z''], ''B'' \<mapsto> [''D'', ''A'']]
              [\<lparr>name = ''A'', url = ''https://x/a.jar''\<rparr>])
   \<and> resolve_dependencies cat_abcd
         [''A'' \<mapsto> [''C'', ''B''], ''C'' \<mapsto> [''D'', ''Z''], ''B'' \<mapsto> [''D'', ''A'']]
         [\<lparr>name = ''A'', url = ''https://x/a.jar''\<rparr>]
       = [\<lparr>name = ''A'', url = ''https://x/a.jar''\<rparr>, \<lparr>name = ''C'', url = ''https://x/c.jar''\<rparr>,
          \<lparr>name = ''B'', url = ''https://x/b.jar''\<rparr>, \<lparr>name = ''D'', url = ''https://x/d.jar''\<rparr>]
   \<and> bfs_levels cat_abcd
         [''A'' \<mapsto> [''C'', ''B''], ''C'' \<mapsto> [''D'', ''Z''], ''B'' \<mapsto> [''D'', ''A'']]
         {''A''} [''A'']
       = [\<lparr>name = ''C'', url = ''https://x/c.jar''\<rparr>,
          \<lparr>name = ''B'', url = ''https://x/b.jar''\<rparr>, \<lparr>name = ''D'', url = ''https://x/d.jar''\<rparr>]"
proof -
  let ?deps = "[''A'' \<mapsto> [''C'', ''B''], ''C'' \<mapsto> [''D'', ''Z''], ''B'' \<mapsto> [''D'', ''A'']]"
  let ?items = "[\<lparr>name = ''A'', url = ''https://x/a.jar''\<rparr>]"
  have r: "resolve_dependencies cat_abcd ?deps ?items
       = [\<lparr>name = ''A'', url = ''https://x/a.jar''\<rparr>, \<lparr>name = ''C'', url = ''https://x/c.jar''\<rparr>,
          \<lparr>name = ''B'', url = ''https://x/b.jar''\<rparr>, \<lparr>name = ''D'', url = ''https://x/d.jar''\<rparr>]"
    by (simp add: resolve_dependencies_def extras_def initial_expansion_def cat_abcd_def
          process_name_def)
  have h: "''C'' \<in> name ` set (resolve_dependencies cat_abcd ?deps ?items)
     \<and> ?deps ''C'' = Some [''D'', ''Z''] \<and> ''D'' \<in> set [''D'', ''Z'']
     \<and> find (\<lambda>x. name x = ''D'') cat_abcd = Some \<lparr>name = ''D'', url = ''https://x/d.jar''\<rparr>"
    by (simp add: r) (simp add: cat_abcd_def)
  note inst = expand_breadth_first [where catalog = cat_abcd and deps = ?deps
      and items_to_download = ?items and k = "''C''" and ds = "[''D'', ''Z'']" and n = "''D''"
      and d = "\<lparr>name = ''D'', url = ''https://x/d.jar''\<rparr>"]
  have d: "''D'' \<in> name ` set (resolve_dependencies cat_abcd ?deps ?items)"
    using h inst [THEN conjunct2, THEN conjunct2] by (rule rev_mp)
  have "resolve_dependencies cat_abcd ?deps ?items
          = ?items @ bfs_levels cat_abcd ?deps (set (map name ?items)) (map name ?items)"
    using inst [THEN conjunct1] .
  then have b: "bfs_levels cat_abcd ?deps {''A''} [''A'']
       = [\<lparr>name = ''C'', url = ''https://x/c.jar''\<rparr>,
          \<lparr>name = ''B'', url = ''https://x/b.jar''\<rparr>, \<lparr>name = ''D'', url = ''https://x/d.jar''\<rparr>]"
    by (simp add: r)
  show ?thesis using h d r b by (intro conjI) (elim conjE, assumption)+
qed

text \<open>
  Claim C5. With \<open>A \<rightarrow> [B]\<close> and \<open>B \<rightarrow> [A]\<close> in the dependency map and both
  in a catalog of unique names, expanding the selection \<open>[A]\<close> gives the items of
  \<open>A\<close> and \<open>B\<close>, once each. In general the loop makes exactly one pass per item of its
  result, so at most one per requested item and one per other catalog name.
\<close>

theorem expand_cycle:
  "(deps A = Some [B] \<and> deps B = Some [A] \<and> A \<noteq> B \<and> distinct (map name catalog)
      \<and> find_item_by_name catalog A = Some a \<and> find_item_by_name catalog B = Some b
      \<longrightarrow> expand [A] catalog deps = [a, b])
   \<and> passes catalog deps (initial_expansion items) = length (resolve_dependencies catalog deps items)
   \<and> passes catalog deps (initial_expansion items)
        \<le> length items + card (name ` set catalog - name ` set items)"
proof (intro conjI impI)
  assume h: "deps A = Some [B] \<and> deps B = Some [A] \<and> A \<noteq> B \<and> distinct (map name catalog)
      \<and> find_item_by_name catalog A = Some a \<and> find_item_by_name catalog B = Some b"
  then have na: "name a = A" and nb: "name b = B"
    using find_item_by_name_Some by blast+
  have sel: "select_items catalog [A] = [a]" using h select_single by blast
  show "expand [A] catalog deps = [a, b]"
  proof -
    have d: "deps A = Some [B]" "deps B = Some [A]" "B \<noteq> A"
      "find_item_by_name catalog B = Some b"
      using h by auto
    show ?thesis
      by (simp add: expand_def sel resolve_dependencies_def extras_def initial_expansion_def
            process_name_def d na nb)
  qed
next
  show "passes catalog deps (initial_expansion items) = length (resolve_dependencies catalog deps items)"
    by (rule passes_result)
next
  show "passes catalog deps (initial_expansion items)
        \<le> length items + card (name ` set catalog - name ` set items)"
    using extras_bound [of catalog deps items]
    by (simp add: passes_result resolve_dependencies_append)
qed

theorem expand_cycle_witness:
  "[''A'' \<mapsto> [''B''], ''B'' \<mapsto> [''A'']] ''A'' = Some [''B'']
   \<and> [''A'' \<mapsto> [''B''], ''B'' \<mapsto> [''A'']] ''B'' = Some [''A'']
   \<and> distinct (map name cat_abc)
   \<and> find_item_by_name cat_abc ''A'' = Some \<lparr>name = ''A'', url = ''https://x/a.jar''\<rparr>
   \<and> find_item_by_name cat_abc ''B'' = Some \<lparr>name = ''B'', url = ''https://x/b.jar''\<rparr>
   \<and> expand [''A''] cat_abc [''A'' \<mapsto> [''B''], ''B'' \<mapsto> [''A'']]
        = [\<lparr>name = ''A'', url = ''https://x/a.jar''\<rparr>, \<lparr>name = ''B'', url = ''https://x/b.jar''\<rparr>]"
proof -
  let ?deps = "[''A'' \<mapsto> [''B''], ''B'' \<mapsto> [''A'']]"
  have h: "?deps ''A'' = Some [''B''] \<and> ?deps ''B'' = Some [''A''] \<and> ''A'' \<noteq> ''B''
      \<and> distinct (map name cat_abc)
      \<and> find_item_by_name cat_abc ''A'' = Some \<lparr>name = ''A'', url = ''https://x/a.jar''\<rparr>
      \<and> find_item_by_name cat_abc ''B'' = Some \<lparr>name = ''B'', url = ''https://x/b.jar''\<rparr>"
    by (simp add: cat_abc_def)
  then have "expand [''A''] cat_abc ?deps
        = [\<lparr>name = ''A'', url = ''https://x/a.jar''\<rparr>, \<lparr>name = ''B'', url = ''https://x/b.jar''\<rparr>]"
    using expand_cycle [of ?deps "''A''" "''B''" cat_abc] by blast
  then show ?thesis using h by blast
qed

section \<open>Run log recorder (app.py, \<open>save_log\<close>)\<close>

text \<open>
  \<open>str_nat\<close> is Python's \<open>str\<close> on a non-negative integer, the decimal digits
  without leading zeros; \<open>candidate\<close> is \<^verbatim>\<open>f"{base}{n}.txt"\<close>.
\<close>

definition digit_char :: "nat \<Rightarrow> char" where
  "digit_char d = ''0123456789'' ! d"

function str_nat :: "nat \<Rightarrow> string" where
  "str_nat n = (if n < 10 then [digit_char n] else str_nat (n div 10) @ [digit_char (n mod 10)])"
  by pat_completeness auto
termination
  by (relation "measure id") auto

declare str_nat.simps [simp del]

lemma digit_char_inj: "a < 10 \<Longrightarrow> b < 10 \<Longrightarrow> digit_char a = digit_char b \<Longrightarrow> a = b"
proof -
  assume a: "a < 10" and b: "b < 10" and e: "digit_char a = digit_char b"
  have d: "distinct ''0123456789''" by simp
  have "a < length ''0123456789''" "b < length ''0123456789''" using a b by simp_all
  then show "a = b" using e d unfolding digit_char_def by (simp only: nth_eq_iff_index_eq)
qed

lemma str_nat_nonempty: "str_nat n \<noteq> []"
  by (subst str_nat.simps) simp

lemma str_nat_inj: "str_nat n = str_nat m \<Longrightarrow> n = m"
proof (induction n arbitrary: m rule: str_nat.induct)
  case (1 n)
  show ?case
  proof (cases "n < 10")
    case n: True
    show ?thesis
    proof (cases "m < 10")
      case True
      then show ?thesis using n "1.prems" digit_char_inj
        by (simp add: str_nat.simps [of n] str_nat.simps [of m])
    next
      case False
      then show ?thesis using n "1.prems" str_nat_nonempty [of "m div 10"]
        by (simp add: str_nat.simps [of n] str_nat.simps [of m])
    qed
  next
    case n: False
    show ?thesis
    proof (cases "m < 10")
      case True
      then show ?thesis using n "1.prems" str_nat_nonempty [of "n div 10"]
        by (simp add: str_nat.simps [of n] str_nat.simps [of m])
    next
      case False
      then have "str_nat (n div 10) = str_nat (m div 10)"
        and dm: "digit_char (n mod 10) = digit_char (m mod 10)"
        using n "1.prems" by (simp_all add: str_nat.simps [of n] str_nat.simps [of m])
      then have "n div 10 = m div 10" using "1.IH" n by simp
      moreover have "n mod 10 = m mod 10" using dm digit_char_inj by simp
      ultimately show ?thesis by (metis div_mult_mod_eq)
    qed
  qed
qed

definition candidate :: "string \<Rightarrow> nat \<Rightarrow> string" where
  "candidate base n = base @ str_nat n @ ''.txt''"

lemma candidate_inj: "candidate base n = candidate base m \<longleftrightarrow> n = m"
  using str_nat_inj by (auto simp: candidate_def)

lemma finite_taken: "finite {k. candidate base k \<in> set existing}"
proof -
  have "{k. candidate base k \<in> set existing} = candidate base -` set existing" by auto
  moreover have "inj (candidate base)" by (simp add: inj_def candidate_inj)
  ultimately show ?thesis by (simp add: finite_vimageI)
qed

text \<open>
  \<^verbatim>\<open>
  n = 1
  while True:
      candidate = LOGS_DIR / f"{base}{n}.txt"
      if not candidate.exists():
          break
      n += 1
  \<close>
  \<open>first_free existing base 1\<close> is the value of \<open>n\<close> after the loop, for the list
  \<open>existing\<close> of the names in the log directory. The loop stops because different
  numbers give different names and the directory holds finitely many.
\<close>

function first_free :: "string list \<Rightarrow> string \<Rightarrow> nat \<Rightarrow> nat" where
  "first_free existing base n =
     (if candidate base n \<in> set existing then first_free existing base (Suc n) else n)"
  by pat_completeness auto
termination
proof (relation "measure (\<lambda>(existing, base, n). card {k. n \<le> k \<and> candidate base k \<in> set existing})", goal_cases)
  case 1 show ?case by simp
next
  case (2 existing base n)
  have fin: "finite {k. n \<le> k \<and> candidate base k \<in> set existing}"
    using finite_taken [of base existing] by (rule rev_finite_subset) auto
  let ?A = "{k. Suc n \<le> k \<and> candidate base k \<in> set existing}"
  let ?B = "{k. n \<le> k \<and> candidate base k \<in> set existing}"
  have "n \<in> ?B" and "n \<notin> ?A" using 2 by simp_all
  then have "?A \<noteq> ?B" by blast
  moreover have "?A \<subseteq> ?B" by auto
  ultimately have "?A \<subset> ?B" by (rule psubsetI [rotated])
  then show ?case using psubset_card_mono [OF fin] by simp
qed

declare first_free.simps [simp del]

lemma first_free_spec:
  "n \<le> first_free existing base n
   \<and> candidate base (first_free existing base n) \<notin> set existing
   \<and> (\<forall>k. n \<le> k \<and> k < first_free existing base n \<longrightarrow> candidate base k \<in> set existing)"
proof (induction existing base n rule: first_free.induct)
  case (1 existing base n)
  show ?case
  proof (cases "candidate base n \<in> set existing")
    case False
    then have "first_free existing base n = n" by (simp add: first_free.simps [of existing base n])
    then show ?thesis using False by auto
  next
    case True
    have eq: "first_free existing base n = first_free existing base (Suc n)"
      using True by (simp add: first_free.simps [of existing base n])
    have "\<And>k. n \<le> k \<Longrightarrow> k < first_free existing base (Suc n) \<Longrightarrow> candidate base k \<in> set existing"
    proof -
      fix k assume "n \<le> k" "k < first_free existing base (Suc n)"
      then show "candidate base k \<in> set existing"
        using 1 [OF True] True by (cases "k = n") auto
    qed
    then show ?thesis using 1 [OF True] by (auto simp: eq)
  qed
qed

subsection \<open>Exceptions, the application state and the log directory\<close>

text \<open>
  An exception is a value with its message, \<^verbatim>\<open>f"{exc}"\<close>; all the classes here are
  subclasses of \<open>Exception\<close>, which is what the handlers of the code catch.
\<close>

datatype py_exception =
    RequestException string
  | HTTPError string
  | OSError string
  | ValueError string
  | KeyError string
  | TypeError string
  | AttributeError string
  | IndexError string

fun str_exc :: "py_exception \<Rightarrow> string" where
  "str_exc (RequestException m) = m"
| "str_exc (HTTPError m) = m"
| "str_exc (OSError m) = m"
| "str_exc (ValueError m) = m"
| "str_exc (KeyError m) = m"
| "str_exc (TypeError m) = m"
| "str_exc (AttributeError m) = m"
| "str_exc (IndexError m) = m"

text \<open>
  The part of \<open>DownloaderApp\<close> the worker touches: the list \<open>self.log_lines\<close>, and the
  calls handed to the user interface (\<^verbatim>\<open>self.after(0, ...)\<close> and message boxes), in
  the order they are made.
\<close>

datatype ui_event =
    AppendLog string
  | SetStatus string
  | SetReady string
  | ClearLog
  | ShowError string string

record app =
  log_lines :: "string list"
  ui :: "ui_event list"

definition log :: "string \<Rightarrow> app \<Rightarrow> app" where
  "log message a = a\<lparr>log_lines := log_lines a @ [message], ui := ui a @ [AppendLog message]\<rparr>"

definition set_status :: "string \<Rightarrow> app \<Rightarrow> app" where
  "set_status message a = a\<lparr>ui := ui a @ [SetStatus message]\<rparr>"

definition set_ready :: "string \<Rightarrow> app \<Rightarrow> app" where
  "set_ready message a = a\<lparr>ui := ui a @ [SetReady message]\<rparr>"

definition reset_log :: "app \<Rightarrow> app" where
  "reset_log a = a\<lparr>log_lines := [], ui := ui a @ [ClearLog]\<rparr>"

text \<open>
  \<^verbatim>\<open>return "\n".join(self.log_lines) + ("\n" if self.log_lines else "")\<close>
\<close>

fun join :: "string \<Rightarrow> string list \<Rightarrow> string" where
  "join sep [] = []"
| "join sep [x] = x"
| "join sep (x # y # zs) = x @ sep @ join sep (y # zs)"

definition newline :: string where
  "newline = [CHR 0x0A]"

definition get_log_text :: "app \<Rightarrow> string" where
  "get_log_text a = join newline (log_lines a) @ (if log_lines a \<noteq> [] then newline else [])"

text \<open>
  The directory \<open>LOGS_DIR\<close>: absent, or a list of file names with their contents. What
  the operating system answers to \<open>mkdir\<close> and to \<open>write_text\<close> is an input
  (\<open>log_env\<close>); writing into a directory that does not exist fails.
\<close>

record disk =
  logs_dir :: "(string \<times> string) list option"

record log_env =
  mkdir_oserror :: "string option"
  write_text_error :: "py_exception option"

definition ensure_dir :: "log_env \<Rightarrow> app \<Rightarrow> disk \<Rightarrow> (app \<times> disk) \<times> bool" where
  "ensure_dir env a d =
     (case logs_dir d of
        Some files \<Rightarrow> ((a, d), True)
      | None \<Rightarrow>
          (case mkdir_oserror env of
             None \<Rightarrow> ((a, d\<lparr>logs_dir := Some []\<rparr>), True)
           | Some exc \<Rightarrow>
               ((a\<lparr>ui := ui a @ [ShowError ''Error'' (''Could not create directory:'' @ newline @ exc)]\<rparr>, d),
                False)))"

definition existing :: "disk \<Rightarrow> string list" where
  "existing d = (case logs_dir d of None \<Rightarrow> [] | Some files \<Rightarrow> map fst files)"

definition read_text :: "disk \<Rightarrow> string \<Rightarrow> string option" where
  "read_text d fname = (case logs_dir d of None \<Rightarrow> None | Some files \<Rightarrow> map_of files fname)"

definition write_text :: "log_env \<Rightarrow> string \<Rightarrow> string \<Rightarrow> disk \<Rightarrow> py_exception + disk" where
  "write_text env fname content d =
     (case logs_dir d of
        None \<Rightarrow> Inl (OSError ''No such file or directory'')
      | Some files \<Rightarrow>
          (case write_text_error env of
             Some exc \<Rightarrow> Inl exc
           | None \<Rightarrow>
               Inr (d\<lparr>logs_dir := Some ((fname, content) # filter (\<lambda>(f, c). f \<noteq> fname) files)\<rparr>)))"

text \<open>
  \<^verbatim>\<open>
  def save_log(self, success: bool) -> str:
      base = "successlog" if success else "logerror"
      ensure_dir(LOGS_DIR)
      n = 1
      while True: ...
      content = self.get_log_text()
      try:
          candidate.write_text(content, encoding="utf-8")
          return candidate.name
      except Exception as exc:
          self.log(f"Failed to save log: {exc}")
          return f"{base}{n}.txt"
  \<close>
\<close>

definition save_log :: "log_env \<Rightarrow> bool \<Rightarrow> app \<Rightarrow> disk \<Rightarrow> (app \<times> disk) \<times> string" where
  "save_log env success a d =
     (let base = (if success then ''successlog'' else ''logerror'');
          (a1, d1) = fst (ensure_dir env a d);
          n = first_free (existing d1) base 1;
          content = get_log_text a1
      in case write_text env (candidate base n) content d1 of
           Inr d2 \<Rightarrow> ((a1, d2), candidate base n)
         | Inl exc \<Rightarrow> ((log (''Failed to save log: '' @ str_exc exc) a1, d1), candidate base n))"

definition base_name :: "bool \<Rightarrow> string" where
  "base_name success = (if success then ''successlog'' else ''logerror'')"

text \<open>A log directory, a finished run and a healthy file system for the examples.\<close>

definition disk0 :: disk where
  "disk0 = \<lparr>logs_dir = Some [(''logerror1.txt'', ''first run''), (''successlog1.txt'', ''ok'')]\<rparr>"


definition env_ok :: log_env where
  "env_ok = \<lparr>mkdir_oserror = None, write_text_error = None\<rparr>"


subsection \<open>Properties of the recorder\<close>

lemma existing_ensure_dir: "existing (snd (fst (ensure_dir env a d))) = existing d"
  by (simp add: ensure_dir_def existing_def split: option.splits)




lemma save_log_name:
  "snd (save_log env success a d) = candidate (base_name success) (first_free (existing d) (base_name success) 1)"
proof -
  obtain a1 d1 where e: "fst (ensure_dir env a d) = (a1, d1)" by (cases "fst (ensure_dir env a d)")
  have "existing d1 = existing d" using existing_ensure_dir [of env a d] by (simp add: e)
  then show ?thesis
    by (simp add: save_log_def base_name_def e Let_def split: sum.splits)
qed


lemma save_log_free_name:
  "\<exists>n\<ge>1. snd (save_log env success a d) = candidate (if success then ''successlog'' else ''logerror'') n
        \<and> candidate (if success then ''successlog'' else ''logerror'') n \<notin> set (existing d)
        \<and> (\<forall>k. 1 \<le> k \<and> k < n \<longrightarrow>
              candidate (if success then ''successlog'' else ''logerror'') k \<in> set (existing d))"
proof -
  let ?b = "base_name success"
  let ?n = "first_free (existing d) ?b 1"
  have "1 \<le> ?n \<and> snd (save_log env success a d) = candidate ?b ?n
        \<and> candidate ?b ?n \<notin> set (existing d)
        \<and> (\<forall>k. 1 \<le> k \<and> k < ?n \<longrightarrow> candidate ?b k \<in> set (existing d))"
    using first_free_spec [of 1 "existing d" ?b] by (simp add: save_log_name)
  then show ?thesis
    unfolding base_name_def by blast
qed

lemma join_terminated:
  "xs \<noteq> [] \<Longrightarrow> join sep xs @ sep = concat (map (\<lambda>l. l @ sep) xs)"
  by (induction sep xs rule: join.induct) simp_all

lemma get_log_text_lines:
  "get_log_text a = concat (map (\<lambda>l. l @ [CHR 0x0A]) (log_lines a))"
  using join_terminated [of "log_lines a" newline]
  by (cases "log_lines a = []") (simp_all add: get_log_text_def newline_def)

lemma ensure_dir_log_lines: "log_lines (fst (fst (ensure_dir env a d))) = log_lines a"
  by (simp add: ensure_dir_def split: option.splits)

lemma save_log_healthy:
  assumes "mkdir_oserror env = None" and "write_text_error env = None"
  shows "read_text (snd (fst (save_log env success a d))) (snd (save_log env success a d))
           = Some (concat (map (\<lambda>l. l @ [CHR 0x0A]) (log_lines a)))
         \<and> set (existing (snd (fst (save_log env success a d))))
             = insert (snd (save_log env success a d)) (set (existing d))
         \<and> log_lines (fst (fst (save_log env success a d))) = log_lines a"
proof -
  obtain a1 d1 where e: "fst (ensure_dir env a d) = (a1, d1)" by (cases "fst (ensure_dir env a d)")
  then obtain files where f: "logs_dir d1 = Some files"
    using assms(1) by (auto simp: ensure_dir_def split: option.splits)
  have ex: "existing d1 = existing d" using existing_ensure_dir [of env a d] by (simp add: e)
  have ll: "log_lines a1 = log_lines a" using ensure_dir_log_lines [of env a d] by (simp add: e)
  have t: "get_log_text a1 = concat (map (\<lambda>l. l @ [CHR 0x0A]) (log_lines a))"
    by (simp add: get_log_text_lines ll)
  have m: "map fst files = existing d" using ex f by (simp add: existing_def)
  define fname where "fname = candidate (if success then ''successlog'' else ''logerror'')
      (first_free (existing d) (if success then ''successlog'' else ''logerror'') 1)"
  define d2 where "d2 = d1\<lparr>logs_dir := Some ((fname, get_log_text a1)
      # filter (\<lambda>(f, c). f \<noteq> fname) files)\<rparr>"
  have w: "write_text env fname (get_log_text a1) d1 = Inr d2"
    using assms(2) f by (simp add: write_text_def d2_def)
  have res: "save_log env success a d = ((a1, d2), fname)"
    using w by (simp add: save_log_def e Let_def ex fname_def)
  have rd: "read_text d2 fname = Some (get_log_text a1)"
    by (simp add: read_text_def d2_def)
  have e2: "existing d2 = fname # map fst (filter (\<lambda>(f, c). f \<noteq> fname) files)"
    by (simp add: existing_def d2_def)
  have "set (map fst (filter (\<lambda>(f, c). f \<noteq> fname) files)) = set (map fst files) - {fname}"
    by auto
  then have "set (existing d2) = insert fname (set (map fst files))"
    unfolding e2 by auto
  then have exs: "set (existing d2) = insert fname (set (existing d))"
    by (simp only: m)
  show ?thesis
    by (simp only: res fst_conv snd_conv rd t exs ll)
qed




section \<open>Transfer engine (app.py, \<open>download_file\<close>)\<close>

text \<open>
  What the code reads of a \<open>pathlib.Path\<close>: \<open>str(p)\<close>, \<open>p.name\<close> and
  \<open>p.suffix\<close>.
\<close>

record py_path =
  path_str :: string
  path_name :: string
  path_suffix :: string

text \<open>
  What the network and the disk answer during one transfer is an input. A response gives
  what \<open>raise_for_status()\<close> raises (if anything), the value of
  \<^verbatim>\<open>int(response.headers.get("Content-Length", "0"))\<close> (\<open>Inl\<close> when \<open>int\<close>
  raises, \<open>Inr 0\<close> when the header is absent), and what \<open>iter_content\<close> yields:
  chunks, each with what \<open>file_handle.write\<close> answers for it, or an exception that ends
  the iteration.
\<close>

datatype chunk_event =
    Chunk string "py_exception option"
  | IterError py_exception

record response =
  raise_for_status :: "py_exception option"
  content_length :: "py_exception + int"
  iter_content :: "chunk_event list"

record world =
  http_get :: "string \<Rightarrow> py_exception + response"
  open_wb :: "string \<Rightarrow> py_exception option"

text \<open>
  The progress report after a chunk is written and counted:
  \<^verbatim>\<open>
  if total:
      percent = downloaded / total * 100
      if percent >= next_percent_log:
          log_cb(f"Downloading... {percent:.1f}%")
          status_cb(f"Downloading... {percent:.1f}%")
          next_percent_log += 5
  else:
      if downloaded % (256 * 1024) < chunk_size:
          status_cb(f"Downloading... {downloaded // 1024} KB")
  \<close>
  \<open>percent\<close> is the exact quotient here, where Python has its nearest double; \<open>fmt\<close>
  stands for the rendering \<^verbatim>\<open>{percent:.1f}\<close> and is a parameter. The properties below
  hold for every \<open>fmt\<close>. The callbacks are parameters as in the source, over any type of
  state \<open>'s\<close>.
\<close>

definition report_progress ::
  "(real \<Rightarrow> string) \<Rightarrow> (string \<Rightarrow> 's \<Rightarrow> 's) \<Rightarrow> (string \<Rightarrow> 's \<Rightarrow> 's) \<Rightarrow> int
     \<Rightarrow> nat \<times> nat \<times> 's \<Rightarrow> nat \<times> nat \<times> 's" where
  "report_progress fmt log_cb status_cb total_len st =
     (case st of (downloaded, next_percent_log, s) \<Rightarrow>
        if total_len \<noteq> 0 then
          (let percent = real downloaded / real_of_int total_len * 100 in
           if percent \<ge> real next_percent_log then
             (downloaded, next_percent_log + 5,
              status_cb (''Downloading... '' @ fmt percent @ ''%'')
                (log_cb (''Downloading... '' @ fmt percent @ ''%'') s))
           else (downloaded, next_percent_log, s))
        else if downloaded mod (256 * 1024) < 8192 then
          (downloaded, next_percent_log,
           status_cb (''Downloading... '' @ str_nat (downloaded div 1024) @ '' KB'') s)
        else (downloaded, next_percent_log, s))"

text \<open>
  \<^verbatim>\<open>
  for chunk in response.iter_content(chunk_size=chunk_size):
      if not chunk:
          continue
      file_handle.write(chunk)
      downloaded += len(chunk)
      ...
  \<close>
  The state is \<open>(downloaded, next_percent_log, s)\<close>; the second component of the result is
  the exception that ended the loop, if one did.
\<close>

fun write_chunks ::
  "(real \<Rightarrow> string) \<Rightarrow> (string \<Rightarrow> 's \<Rightarrow> 's) \<Rightarrow> (string \<Rightarrow> 's \<Rightarrow> 's) \<Rightarrow> int
     \<Rightarrow> chunk_event list \<Rightarrow> nat \<times> nat \<times> 's \<Rightarrow> (nat \<times> nat \<times> 's) \<times> py_exception option" where
  "write_chunks fmt log_cb status_cb total_len [] st = (st, None)"
| "write_chunks fmt log_cb status_cb total_len (IterError exc # rest) st = (st, Some exc)"
| "write_chunks fmt log_cb status_cb total_len (Chunk chunk write_result # rest)
       (downloaded, next_percent_log, s) =
     (if chunk = [] then
        write_chunks fmt log_cb status_cb total_len rest (downloaded, next_percent_log, s)
      else
        (case write_result of
           Some exc \<Rightarrow> ((downloaded, next_percent_log, s), Some exc)
         | None \<Rightarrow>
             write_chunks fmt log_cb status_cb total_len rest
               (report_progress fmt log_cb status_cb total_len
                  (downloaded + length chunk, next_percent_log, s))))"

text \<open>The body of the \<^verbatim>\<open>try\<close> block of \<open>download_file\<close>.\<close>

definition transfer ::
  "(real \<Rightarrow> string) \<Rightarrow> world \<Rightarrow> string \<Rightarrow> py_path
     \<Rightarrow> (string \<Rightarrow> 's \<Rightarrow> 's) \<Rightarrow> (string \<Rightarrow> 's \<Rightarrow> 's) \<Rightarrow> (string \<Rightarrow> 's \<Rightarrow> 's)
     \<Rightarrow> 's \<Rightarrow> 's \<times> (py_exception + unit)" where
  "transfer fmt w src_url destination log_cb status_cb ready_cb s0 =
     (let s1 = log_cb (''Starting download: '' @ path_name destination) s0;
          s2 = log_cb (''Target path: '' @ path_str destination) s1;
          s3 = log_cb (''Extension: '' @
                  (if path_suffix destination \<noteq> [] then path_suffix destination else ''none'')) s2;
          s4 = status_cb (''Retrieving: '' @ path_name destination) s3
      in case http_get w src_url of
           Inl exc \<Rightarrow> (s4, Inl exc)
         | Inr response \<Rightarrow>
             (case raise_for_status response of
                Some exc \<Rightarrow> (s4, Inl exc)
              | None \<Rightarrow>
                  (case content_length response of
                     Inl exc \<Rightarrow> (s4, Inl exc)
                   | Inr total_len \<Rightarrow>
                       (case open_wb w (path_str destination) of
                          Some exc \<Rightarrow> (s4, Inl exc)
                        | None \<Rightarrow>
                            (case write_chunks fmt log_cb status_cb total_len
                                    (iter_content response) (0, 5, s4) of
                               ((downloaded, next_percent_log, s5), Some exc) \<Rightarrow> (s5, Inl exc)
                             | ((downloaded, next_percent_log, s5), None) \<Rightarrow>
                                 (ready_cb ''Ready''
                                    (status_cb (''Finished: '' @ path_name destination)
                                       (log_cb (''Saved: '' @ path_str destination) s5)),
                                  Inr ()))))))"

text \<open>
  \<^verbatim>\<open>
  except Exception as exc:
      log_cb(f"Failed: {exc}")
      status_cb(f"Error: {exc}")
      ready_cb("Ready")
      raise exc
  \<close>
\<close>

definition download_file ::
  "(real \<Rightarrow> string) \<Rightarrow> world \<Rightarrow> string \<Rightarrow> py_path
     \<Rightarrow> (string \<Rightarrow> 's \<Rightarrow> 's) \<Rightarrow> (string \<Rightarrow> 's \<Rightarrow> 's) \<Rightarrow> (string \<Rightarrow> 's \<Rightarrow> 's)
     \<Rightarrow> 's \<Rightarrow> 's \<times> (py_exception + unit)" where
  "download_file fmt w src_url destination log_cb status_cb ready_cb s =
     (case transfer fmt w src_url destination log_cb status_cb ready_cb s of
        (s', Inr u) \<Rightarrow> (s', Inr u)
      | (s', Inl exc) \<Rightarrow>
          (ready_cb ''Ready''
             (status_cb (''Error: '' @ str_exc exc) (log_cb (''Failed: '' @ str_exc exc) s')),
           Inl exc))"

text \<open>
  The exception that arises first during a transfer, read off the answers of the network
  and the disk in the order the code asks for them.
\<close>

fun first_chunk_error :: "chunk_event list \<Rightarrow> py_exception option" where
  "first_chunk_error [] = None"
| "first_chunk_error (IterError exc # rest) = Some exc"
| "first_chunk_error (Chunk chunk write_result # rest) =
     (if chunk = [] then first_chunk_error rest
      else (case write_result of Some exc \<Rightarrow> Some exc | None \<Rightarrow> first_chunk_error rest))"

definition arising :: "world \<Rightarrow> string \<Rightarrow> py_path \<Rightarrow> py_exception option" where
  "arising w src_url destination =
     (case http_get w src_url of
        Inl exc \<Rightarrow> Some exc
      | Inr response \<Rightarrow>
          (case raise_for_status response of
             Some exc \<Rightarrow> Some exc
           | None \<Rightarrow>
               (case content_length response of
                  Inl exc \<Rightarrow> Some exc
                | Inr total_len \<Rightarrow>
                    (case open_wb w (path_str destination) of
                       Some exc \<Rightarrow> Some exc
                     | None \<Rightarrow> first_chunk_error (iter_content response)))))"

definition progress_line :: "(real \<Rightarrow> string) \<Rightarrow> real \<Rightarrow> string" where
  "progress_line fmt percent = ''Downloading... '' @ fmt percent @ ''%''"

fun received :: "chunk_event list \<Rightarrow> nat" where
  "received [] = 0"
| "received (Chunk chunk write_result # rest) = length chunk + received rest"
| "received (IterError exc # rest) = received rest"

fun nonempty_chunk :: "chunk_event \<Rightarrow> bool" where
  "nonempty_chunk (Chunk chunk write_result) = (chunk \<noteq> [])"
| "nonempty_chunk (IterError exc) = False"

definition on_failure ::
  "(string \<Rightarrow> 's \<Rightarrow> 's) \<Rightarrow> (string \<Rightarrow> 's \<Rightarrow> 's) \<Rightarrow> (string \<Rightarrow> 's \<Rightarrow> 's) \<Rightarrow> py_exception \<Rightarrow> 's \<Rightarrow> 's" where
  "on_failure log_cb status_cb ready_cb exc s =
     ready_cb ''Ready'' (status_cb (''Error: '' @ str_exc exc) (log_cb (''Failed: '' @ str_exc exc) s))"

text \<open>Transfers for the examples.\<close>

definition app_empty :: app where
  "app_empty = \<lparr>log_lines = [], ui = []\<rparr>"

definition dest_jar :: py_path where
  "dest_jar = \<lparr>path_str = ''/plugins/a.jar'', path_name = ''a.jar'', path_suffix = ''.jar''\<rparr>"

definition big_chunk :: chunk_event where
  "big_chunk = Chunk (replicate 8192 (CHR ''x'')) None"

definition compressed_body :: world where
  "compressed_body =
     \<lparr>http_get = (\<lambda>u. Inr \<lparr>raise_for_status = None, content_length = Inr 1000,
          iter_content =
            [big_chunk, big_chunk, big_chunk, big_chunk, big_chunk, big_chunk, big_chunk,
             big_chunk, big_chunk, big_chunk, big_chunk, big_chunk, big_chunk, big_chunk,
             big_chunk, big_chunk, big_chunk, big_chunk, big_chunk, big_chunk, big_chunk]\<rparr>),
      open_wb = (\<lambda>p. None)\<rparr>"

definition fmt_floor :: "real \<Rightarrow> string" where
  "fmt_floor percent = str_nat (nat \<lfloor>percent\<rfloor>)"

definition four_quarters :: "chunk_event list" where
  "four_quarters = [Chunk ''abcde'' None, Chunk '''' None, Chunk ''fghij'' None,
                    Chunk ''klmno'' None, Chunk ''pqrst'' None]"

definition not_found :: world where
  "not_found =
     \<lparr>http_get = (\<lambda>u. Inr \<lparr>raise_for_status = Some (HTTPError ''404 Client Error: Not Found''),
                               content_length = Inr 0, iter_content = []\<rparr>),
      open_wb = (\<lambda>p. None)\<rparr>"

subsection \<open>Properties of the transfer\<close>

lemma write_chunks_result:
  "snd (write_chunks fmt log_cb status_cb total_len events st) = first_chunk_error events"
proof (induction events arbitrary: st)
  case Nil show ?case by simp
next
  case (Cons ev events)
  obtain d n s where st: "st = (d, n, s)" by (cases st)
  show ?case by (cases ev) (simp_all add: st Cons.IH split: option.splits)
qed

lemma transfer_result:
  "snd (transfer fmt w src_url destination log_cb status_cb ready_cb s)
     = (case arising w src_url destination of None \<Rightarrow> Inr () | Some exc \<Rightarrow> Inl exc)"
proof -
  have "snd (case write_chunks fmt log_cb status_cb total_len events st of
               ((downloaded, next_percent_log, s5), Some exc) \<Rightarrow> (s5, Inl exc)
             | ((downloaded, next_percent_log, s5), None) \<Rightarrow> (f s5, Inr ()))
          = (case first_chunk_error events of None \<Rightarrow> Inr () | Some exc \<Rightarrow> Inl exc)"
    for total_len events st and f :: "'a \<Rightarrow> 'a"
    using write_chunks_result [of fmt log_cb status_cb total_len events st]
    by (cases "write_chunks fmt log_cb status_cb total_len events st") (auto split: option.splits)
  then show ?thesis
    by (simp add: transfer_def arising_def Let_def split: sum.splits option.splits)
qed

lemma download_file_result:
  "snd (download_file fmt w src_url destination log_cb status_cb ready_cb s)
     = (case arising w src_url destination of None \<Rightarrow> Inr () | Some exc \<Rightarrow> Inl exc)"
  using transfer_result [of fmt w src_url destination log_cb status_cb ready_cb s]
  by (cases "transfer fmt w src_url destination log_cb status_cb ready_cb s")
     (auto simp: download_file_def split: sum.splits option.splits)

lemma report_progress_known:
  "total_len \<noteq> 0 \<Longrightarrow>
     report_progress fmt log set_status total_len (d, npl, a) =
       (if real npl \<le> real d / real_of_int total_len * 100
        then (d, npl + 5,
              set_status (progress_line fmt (real d / real_of_int total_len * 100))
                (log (progress_line fmt (real d / real_of_int total_len * 100)) a))
        else (d, npl, a))"
  by (simp add: report_progress_def progress_line_def Let_def)

lemma percent_le_100:
  assumes "int d \<le> total_len" and "total_len \<noteq> 0"
  shows "real d / real_of_int total_len * 100 \<le> 100"
proof -
  have pos: "0 < real_of_int total_len" using assms by simp
  have "real d \<le> real_of_int total_len" using assms(1) by linarith
  then have "real d / real_of_int total_len \<le> 1" using pos by simp
  then have "real d / real_of_int total_len * 100 \<le> 1 * 100"
    by (intro mult_right_mono) simp_all
  then show ?thesis by (simp only: mult_1)
qed

lemma write_chunks_progress:
  assumes "total_len \<noteq> 0"
  shows "\<exists>ps. log_lines (snd (snd (fst (write_chunks fmt log set_status total_len events (d, npl, a)))))
               = log_lines a @ map (progress_line fmt) ps
          \<and> fst (snd (fst (write_chunks fmt log set_status total_len events (d, npl, a))))
               = npl + 5 * length ps
          \<and> (\<forall>i<length ps. real (npl + 5 * i) \<le> ps ! i)
          \<and> length ps \<le> length (filter nonempty_chunk events)
          \<and> (int d + int (received events) \<le> total_len \<longrightarrow> (\<forall>p\<in>set ps. p \<le> 100))"
proof (induction events arbitrary: d npl a)
  case Nil
  show ?case by (intro exI [of _ "[]"]) simp
next
  case (Cons ev events)
  show ?case
  proof (cases ev)
    case (IterError exc)
    show ?thesis by (intro exI [of _ "[]"]) (simp add: IterError)
  next
    case (Chunk chunk write_result)
    show ?thesis
    proof (cases "chunk = []")
      case True
      from Cons.IH [of d npl a] show ?thesis by (simp add: Chunk True)
    next
      case False
      show ?thesis
      proof (cases write_result)
        case (Some exc)
        show ?thesis by (intro exI [of _ "[]"]) (simp add: Chunk False Some)
      next
        case None
        let ?d = "d + length chunk"
        let ?p = "real ?d / real_of_int total_len * 100"
        show ?thesis
        proof (cases "real npl \<le> ?p")
          case no: False
          have step: "write_chunks fmt log set_status total_len (ev # events) (d, npl, a)
                  = write_chunks fmt log set_status total_len events (?d, npl, a)"
            using no assms by (simp add: Chunk False None report_progress_known)
          from Cons.IH [of ?d npl a] obtain ps where
            ps: "log_lines (snd (snd (fst (write_chunks fmt log set_status total_len events (?d, npl, a)))))
                   = log_lines a @ map (progress_line fmt) ps"
              "fst (snd (fst (write_chunks fmt log set_status total_len events (?d, npl, a))))
                   = npl + 5 * length ps"
              "\<forall>i<length ps. real (npl + 5 * i) \<le> ps ! i"
              "length ps \<le> length (filter nonempty_chunk events)"
              "int ?d + int (received events) \<le> total_len \<longrightarrow> (\<forall>p\<in>set ps. p \<le> 100)"
            by blast
          show ?thesis
            unfolding step using ps by (intro exI [of _ ps]) (simp add: Chunk False)
        next
          case yes: True
          let ?a = "set_status (progress_line fmt ?p) (log (progress_line fmt ?p) a)"
          have step: "write_chunks fmt log set_status total_len (ev # events) (d, npl, a)
                  = write_chunks fmt log set_status total_len events (?d, npl + 5, ?a)"
            using yes assms by (simp add: Chunk False None report_progress_known)
          have la: "log_lines ?a = log_lines a @ [progress_line fmt ?p]"
            by (simp add: log_def set_status_def)
          from Cons.IH [of ?d "npl + 5" ?a] obtain ps where
            ps: "log_lines (snd (snd (fst (write_chunks fmt log set_status total_len events (?d, npl + 5, ?a)))))
                   = log_lines ?a @ map (progress_line fmt) ps"
              "fst (snd (fst (write_chunks fmt log set_status total_len events (?d, npl + 5, ?a))))
                   = npl + 5 + 5 * length ps"
              "\<forall>i<length ps. real (npl + 5 + 5 * i) \<le> ps ! i"
              "length ps \<le> length (filter nonempty_chunk events)"
              "int ?d + int (received events) \<le> total_len \<longrightarrow> (\<forall>p\<in>set ps. p \<le> 100)"
            by blast
          have idx: "\<forall>i<length (?p # ps). real (npl + 5 * i) \<le> (?p # ps) ! i"
          proof (intro allI impI)
            fix i assume "i < length (?p # ps)"
            then show "real (npl + 5 * i) \<le> (?p # ps) ! i"
              using yes ps(3) by (cases i) (simp_all add: algebra_simps)
          qed
          have bound: "int d + int (received (ev # events)) \<le> total_len \<longrightarrow> (\<forall>p\<in>set (?p # ps). p \<le> 100)"
          proof
            assume h: "int d + int (received (ev # events)) \<le> total_len"
            then have "int ?d \<le> total_len" by (simp add: Chunk)
            then have "?p \<le> 100" using assms by (rule percent_le_100)
            moreover have "\<forall>p\<in>set ps. p \<le> 100" using ps(5) h by (simp add: Chunk)
            ultimately show "\<forall>p\<in>set (?p # ps). p \<le> 100" by simp
          qed
          show ?thesis
            unfolding step
            using ps(1,2,4) la idx bound
            by (intro exI [of _ "?p # ps"]) (simp add: Chunk False)
        qed
      qed
    qed
  qed
qed

lemma download_file_cases:
  "download_file fmt w src_url destination log_cb status_cb ready_cb s =
     (case arising w src_url destination of
        None \<Rightarrow> (fst (transfer fmt w src_url destination log_cb status_cb ready_cb s), Inr ())
      | Some exc \<Rightarrow>
          (on_failure log_cb status_cb ready_cb exc
             (fst (transfer fmt w src_url destination log_cb status_cb ready_cb s)), Inl exc))"
  using transfer_result [of fmt w src_url destination log_cb status_cb ready_cb s]
  by (cases "transfer fmt w src_url destination log_cb status_cb ready_cb s")
     (auto simp: download_file_def on_failure_def split: sum.splits option.splits)

lemma first_chunk_error_written:
  "first_chunk_error (map (\<lambda>c. Chunk c None) cs @ rest) = first_chunk_error rest"
  by (induction cs) simp_all

text \<open>
  Claim C8. Whatever exception arises during a transfer, \<open>download_file\<close> hands it to the
  log callback in a line \<open>Failed: \<dots>\<close> with its message, then to the status callback
  in \<open>Error: \<dots>\<close>, then signals \<open>Ready\<close>, and raises that same exception. With the
  callbacks of the application the line is the last of \<open>log_lines\<close>. A failing
  \<open>requests.get\<close>, a failing \<open>raise_for_status\<close>, a failing write and a failing
  read of the stream are exceptions arising in this sense.
\<close>

theorem download_file_reraises:
  "(arising w src_url destination = Some exc \<longrightarrow>
      download_file fmt w src_url destination log_cb status_cb ready_cb s =
        (ready_cb ''Ready''
           (status_cb (''Error: '' @ str_exc exc)
              (log_cb (''Failed: '' @ str_exc exc)
                 (fst (transfer fmt w src_url destination log_cb status_cb ready_cb s)))),
         Inl exc)
      \<and> last (log_lines (fst (download_file fmt w src_url destination log set_status set_ready a)))
            = ''Failed: '' @ str_exc exc
      \<and> (\<exists>evs. ui (fst (download_file fmt w src_url destination log set_status set_ready a))
            = evs @ [AppendLog (''Failed: '' @ str_exc exc), SetStatus (''Error: '' @ str_exc exc),
                     SetReady ''Ready'']))
   \<and> (http_get w src_url = Inl exc \<longrightarrow> arising w src_url destination = Some exc)
   \<and> (http_get w src_url = Inr response \<and> raise_for_status response = Some exc \<longrightarrow>
        arising w src_url destination = Some exc)
   \<and> (http_get w src_url = Inr response \<and> raise_for_status response = None
        \<and> content_length response = Inr total_len \<and> open_wb w (path_str destination) = None
        \<and> iter_content response = map (\<lambda>c. Chunk c None) cs @ Chunk chunk (Some exc) # rest
        \<and> chunk \<noteq> [] \<longrightarrow>
        arising w src_url destination = Some exc)
   \<and> (http_get w src_url = Inr response \<and> raise_for_status response = None
        \<and> content_length response = Inr total_len \<and> open_wb w (path_str destination) = None
        \<and> iter_content response = map (\<lambda>c. Chunk c None) cs @ IterError exc # rest \<longrightarrow>
        arising w src_url destination = Some exc)"
proof (intro conjI impI)
  assume e: "arising w src_url destination = Some exc"
  show "download_file fmt w src_url destination log_cb status_cb ready_cb s =
        (ready_cb ''Ready''
           (status_cb (''Error: '' @ str_exc exc)
              (log_cb (''Failed: '' @ str_exc exc)
                 (fst (transfer fmt w src_url destination log_cb status_cb ready_cb s)))),
         Inl exc)"
    by (simp add: download_file_cases e on_failure_def)
  show "last (log_lines (fst (download_file fmt w src_url destination log set_status set_ready a)))
            = ''Failed: '' @ str_exc exc"
    by (simp add: download_file_cases e on_failure_def log_def set_status_def set_ready_def)
  show "\<exists>evs. ui (fst (download_file fmt w src_url destination log set_status set_ready a))
            = evs @ [AppendLog (''Failed: '' @ str_exc exc), SetStatus (''Error: '' @ str_exc exc),
                     SetReady ''Ready'']"
    by (simp add: download_file_cases e on_failure_def log_def set_status_def set_ready_def)
next
  assume "http_get w src_url = Inl exc"
  then show "arising w src_url destination = Some exc" by (simp add: arising_def)
next
  assume "http_get w src_url = Inr response \<and> raise_for_status response = Some exc"
  then show "arising w src_url destination = Some exc" by (simp add: arising_def)
next
  assume "http_get w src_url = Inr response \<and> raise_for_status response = None
        \<and> content_length response = Inr total_len \<and> open_wb w (path_str destination) = None
        \<and> iter_content response = map (\<lambda>c. Chunk c None) cs @ Chunk chunk (Some exc) # rest
        \<and> chunk \<noteq> []"
  then show "arising w src_url destination = Some exc"
    by (simp add: arising_def first_chunk_error_written)
next
  assume "http_get w src_url = Inr response \<and> raise_for_status response = None
        \<and> content_length response = Inr total_len \<and> open_wb w (path_str destination) = None
        \<and> iter_content response = map (\<lambda>c. Chunk c None) cs @ IterError exc # rest"
  then show "arising w src_url destination = Some exc"
    by (simp add: arising_def first_chunk_error_written)
qed

theorem download_file_reraises_witness:
  "arising not_found ''https://x/a.jar'' dest_jar = Some (HTTPError ''404 Client Error: Not Found'')
   \<and> download_file (\<lambda>p. []) not_found ''https://x/a.jar'' dest_jar log set_status set_ready app_empty =
       (\<lparr>log_lines = [''Starting download: a.jar'', ''Target path: /plugins/a.jar'',
                       ''Extension: .jar'', ''Failed: 404 Client Error: Not Found''],
         ui = [AppendLog ''Starting download: a.jar'', AppendLog ''Target path: /plugins/a.jar'',
               AppendLog ''Extension: .jar'', SetStatus ''Retrieving: a.jar'',
               AppendLog ''Failed: 404 Client Error: Not Found'',
               SetStatus ''Error: 404 Client Error: Not Found'', SetReady ''Ready'']\<rparr>,
        Inl (HTTPError ''404 Client Error: Not Found''))"
proof -
  let ?e = "HTTPError ''404 Client Error: Not Found''"
  let ?r = "\<lparr>raise_for_status = Some ?e, content_length = Inr 0, iter_content = []\<rparr>"
  note inst = download_file_reraises
    [where w = not_found and src_url = "''https://x/a.jar''" and destination = dest_jar
       and exc = ?e and fmt = "\<lambda>p. []" and log_cb = log and status_cb = set_status
       and ready_cb = set_ready and s = app_empty and a = app_empty and response = ?r]
  have r: "http_get not_found ''https://x/a.jar'' = Inr ?r \<and> raise_for_status ?r = Some ?e"
    by (simp add: not_found_def)
  have t: "fst (transfer (\<lambda>p. []) not_found ''https://x/a.jar'' dest_jar log set_status set_ready app_empty)
        = \<lparr>log_lines = [''Starting download: a.jar'', ''Target path: /plugins/a.jar'', ''Extension: .jar''],
           ui = [AppendLog ''Starting download: a.jar'', AppendLog ''Target path: /plugins/a.jar'',
               AppendLog ''Extension: .jar'', SetStatus ''Retrieving: a.jar'']\<rparr>"
    by (simp add: transfer_def not_found_def dest_jar_def app_empty_def log_def set_status_def Let_def)
  have a: "arising not_found ''https://x/a.jar'' dest_jar = Some ?e"
    using r inst [THEN conjunct2, THEN conjunct2, THEN conjunct1] by blast
  have "download_file (\<lambda>p. []) not_found ''https://x/a.jar'' dest_jar log set_status set_ready app_empty =
        (set_ready ''Ready''
           (set_status (''Error: '' @ str_exc ?e)
              (log (''Failed: '' @ str_exc ?e)
                 (fst (transfer (\<lambda>p. []) not_found ''https://x/a.jar'' dest_jar log set_status set_ready app_empty)))),
         Inl ?e)"
    using a inst [THEN conjunct1] by blast
  then show ?thesis using a by (simp add: t log_def set_status_def set_ready_def)
qed

text \<open>
  A transfer of 21 chunks of 8192 bytes against a declared length of 1000 (a body
  compressed in transit is counted decoded, its declared length is the compressed one):
  every chunk brings the percentage above the next threshold, and 21 progress lines are
  logged.
\<close>

theorem progress_lines_counterexample:
  "length (filter (prefix ''Downloading... '')
     (log_lines (fst (download_file (\<lambda>p. []) compressed_body ''https://x/a.jar'' dest_jar
                         log set_status set_ready app_empty)))) = 21"
  by (simp add: download_file_def transfer_def compressed_body_def big_chunk_def dest_jar_def
        app_empty_def report_progress_def log_def set_status_def set_ready_def Let_def)

text \<open>
  Claim C9, as the code has it. With a declared length other than zero, the lines the chunk
  loop adds to the log are progress lines, at most one per non-empty chunk; the \<open>i\<close>-th
  of them (from 0) reports a percentage that has reached the threshold \<open>5 * (i + 1)\<close>, so
  the thresholds are 5, 10, 15, \<dots>, each used once; and when the bytes received do not
  exceed the declared length there are at most 20 of them.
\<close>

theorem progress_lines:
  assumes "total_len \<noteq> 0"
  shows "\<exists>ps. log_lines (snd (snd (fst (write_chunks fmt log set_status total_len events (0, 5, a)))))
               = log_lines a @ map (progress_line fmt) ps
          \<and> fst (snd (fst (write_chunks fmt log set_status total_len events (0, 5, a))))
               = 5 + 5 * length ps
          \<and> (\<forall>i<length ps. real (5 * (i + 1)) \<le> ps ! i)
          \<and> length ps \<le> length (filter nonempty_chunk events)
          \<and> (int (received events) \<le> total_len \<longrightarrow> length ps \<le> 20)"
proof -
  from write_chunks_progress [OF assms, of fmt events 0 5 a] obtain ps where
    ps: "log_lines (snd (snd (fst (write_chunks fmt log set_status total_len events (0, 5, a)))))
               = log_lines a @ map (progress_line fmt) ps"
        "fst (snd (fst (write_chunks fmt log set_status total_len events (0, 5, a))))
               = 5 + 5 * length ps"
        "\<forall>i<length ps. real (5 + 5 * i) \<le> ps ! i"
        "length ps \<le> length (filter nonempty_chunk events)"
        "int 0 + int (received events) \<le> total_len \<longrightarrow> (\<forall>p\<in>set ps. p \<le> 100)"
    by blast
  have "length ps \<le> 20" if h: "int (received events) \<le> total_len"
  proof (cases ps)
    case Nil then show ?thesis by simp
  next
    case (Cons p ps')
    let ?i = "length ps - 1"
    have i: "?i < length ps" using Cons by simp
    have "real (5 + 5 * ?i) \<le> ps ! ?i" using ps(3) i by blast
    moreover have "ps ! ?i \<le> 100" using ps(5) h i by simp
    ultimately have "real (5 + 5 * ?i) \<le> 100" by linarith
    then have "5 + 5 * ?i \<le> 100" by linarith
    then show ?thesis by linarith
  qed
  moreover have "\<forall>i<length ps. real (5 * (i + 1)) \<le> ps ! i"
    using ps(3) by (simp add: algebra_simps)
  ultimately show ?thesis using ps(1,2,4) by blast
qed

theorem progress_lines_witness:
  "(20::int) \<noteq> 0 \<and> int (received four_quarters) \<le> 20
   \<and> log_lines (snd (snd (fst (write_chunks (\<lambda>p. []) log set_status 20 four_quarters (0, 5, app_empty)))))
       = [''Downloading... %'', ''Downloading... %'', ''Downloading... %'', ''Downloading... %'']
   \<and> (\<exists>ps. log_lines (snd (snd (fst (write_chunks (\<lambda>p. []) log set_status 20 four_quarters (0, 5, app_empty)))))
               = log_lines app_empty @ map (progress_line (\<lambda>p. [])) ps
          \<and> length ps \<le> 20)"
proof -
  have n: "(20::int) \<noteq> 0" by simp
  have r: "int (received four_quarters) \<le> 20" by (simp add: four_quarters_def)
  have l: "log_lines (snd (snd (fst (write_chunks (\<lambda>p. []) log set_status 20 four_quarters (0, 5, app_empty)))))
       = [''Downloading... %'', ''Downloading... %'', ''Downloading... %'', ''Downloading... %'']"
    by (simp add: four_quarters_def app_empty_def report_progress_def log_def set_status_def Let_def)
  from progress_lines [OF n, of "\<lambda>p. []" four_quarters app_empty] r
  have "\<exists>ps. log_lines (snd (snd (fst (write_chunks (\<lambda>p. []) log set_status 20 four_quarters (0, 5, app_empty)))))
               = log_lines app_empty @ map (progress_line (\<lambda>p. [])) ps
          \<and> length ps \<le> 20"
    by blast
  then show ?thesis using n r l by blast
qed

section \<open>Batch orchestrator (app.py, \<open>start_download\<close>, \<open>worker\<close>)\<close>

text \<open>
  The worker thread of \<open>start_download\<close>. \<open>name_of\<close> stands for
  \<^verbatim>\<open>Path(s).name\<close> and \<open>joinpath\<close> for \<^verbatim>\<open>self.download_dir / filename\<close>
  (both of \<open>pathlib\<close>); \<open>worlds idx\<close> is what the network and the disk answer during
  the transfer number \<open>idx\<close>, counted from 1 as \<^verbatim>\<open>enumerate(..., start=1)\<close> does.
  \<^verbatim>\<open>
  filename = Path(selected["url"]).name or "download.bin"
  target = self.download_dir / filename
  self.set_status(f"Starting download ({idx}/{len(items_to_download)}): {filename}")
  try:
      download_file(selected["url"], target, self.log, self.set_status, self.set_ready)
  except Exception:
      overall_success = False
  \<close>
\<close>

definition filename_of :: "(string \<Rightarrow> string) \<Rightarrow> catalog_item \<Rightarrow> string" where
  "filename_of name_of selected =
     (if name_of (url selected) \<noteq> [] then name_of (url selected) else ''download.bin'')"

definition starting_status :: "nat \<Rightarrow> nat \<Rightarrow> string \<Rightarrow> string" where
  "starting_status idx n filename =
     ''Starting download ('' @ str_nat idx @ ''/'' @ str_nat n @ ''): '' @ filename"

fun download_items ::
  "(real \<Rightarrow> string) \<Rightarrow> (string \<Rightarrow> string) \<Rightarrow> (py_path \<Rightarrow> string \<Rightarrow> py_path) \<Rightarrow> (nat \<Rightarrow> world)
     \<Rightarrow> py_path \<Rightarrow> nat \<Rightarrow> nat \<Rightarrow> catalog_item list \<Rightarrow> app \<times> bool \<Rightarrow> app \<times> bool" where
  "download_items fmt name_of joinpath worlds download_dir n idx [] st = st"
| "download_items fmt name_of joinpath worlds download_dir n idx (selected # rest) (a, overall_success) =
     (let filename = filename_of name_of selected;
          target = joinpath download_dir filename;
          a1 = set_status (starting_status idx n filename) a
      in case download_file fmt (worlds idx) (url selected) target log set_status set_ready a1 of
           (a2, Inr u) \<Rightarrow>
             download_items fmt name_of joinpath worlds download_dir n (Suc idx) rest
               (a2, overall_success)
         | (a2, Inl exc) \<Rightarrow>
             download_items fmt name_of joinpath worlds download_dir n (Suc idx) rest
               (a2, False))"

text \<open>
  \<^verbatim>\<open>
  def worker():
      self.set_ready("Busy")
      self.reset_log()
      overall_success = True
      self.log(f"--- Batch Download Started ---")
      self.log(f"Target Directory: {self.download_dir}")
      for idx, selected in enumerate(items_to_download, start=1): ...
      self.set_ready("Ready")
      self.set_status("Finished all downloads")
      self.log(f"--- Batch Download Finished ---")
      log_name = self.save_log(overall_success)
      self.log(f"Log saved to logs/{log_name}")
  \<close>
  The result is the application state, the log directory and \<open>overall_success\<close>.
\<close>

definition worker ::
  "(real \<Rightarrow> string) \<Rightarrow> (string \<Rightarrow> string) \<Rightarrow> (py_path \<Rightarrow> string \<Rightarrow> py_path) \<Rightarrow> (nat \<Rightarrow> world)
     \<Rightarrow> log_env \<Rightarrow> py_path \<Rightarrow> catalog_item list \<Rightarrow> app \<Rightarrow> disk \<Rightarrow> (app \<times> disk) \<times> bool" where
  "worker fmt name_of joinpath worlds lenv download_dir items_to_download a d =
     (let a1 = set_ready ''Busy'' a;
          a2 = reset_log a1;
          a3 = log ''--- Batch Download Started ---'' a2;
          a4 = log (''Target Directory: '' @ path_str download_dir) a3;
          (a5, overall_success) =
            download_items fmt name_of joinpath worlds download_dir
              (length items_to_download) 1 items_to_download (a4, True);
          a6 = set_ready ''Ready'' a5;
          a7 = set_status ''Finished all downloads'' a6;
          a8 = log ''--- Batch Download Finished ---'' a7;
          ((a9, d'), log_name) = save_log lenv overall_success a8 d;
          a10 = log (''Log saved to logs/'' @ log_name) a9
      in ((a10, d'), overall_success))"

text \<open>
  An attempt shows in the calls to the user interface as the status line the worker sets
  before it calls \<open>download_file\<close>; \<open>attempts\<close> is the list of these lines for a
  list of items, in order.
\<close>

fun is_attempt :: "ui_event \<Rightarrow> bool" where
  "is_attempt (SetStatus message) = prefix ''Starting download ('' message"
| "is_attempt ev = False"

fun attempts :: "(string \<Rightarrow> string) \<Rightarrow> nat \<Rightarrow> nat \<Rightarrow> catalog_item list \<Rightarrow> ui_event list" where
  "attempts name_of n idx [] = []"
| "attempts name_of n idx (selected # rest) =
     SetStatus (starting_status idx n (filename_of name_of selected))
       # attempts name_of n (Suc idx) rest"

text \<open>Names for the fixed runs of callbacks, used in the proofs.\<close>

definition announce ::
  "py_path \<Rightarrow> (string \<Rightarrow> 's \<Rightarrow> 's) \<Rightarrow> (string \<Rightarrow> 's \<Rightarrow> 's) \<Rightarrow> 's \<Rightarrow> 's" where
  "announce destination log_cb status_cb s0 =
     status_cb (''Retrieving: '' @ path_name destination)
       (log_cb (''Extension: '' @
                  (if path_suffix destination \<noteq> [] then path_suffix destination else ''none''))
          (log_cb (''Target path: '' @ path_str destination)
             (log_cb (''Starting download: '' @ path_name destination) s0)))"

definition finish ::
  "py_path \<Rightarrow> (string \<Rightarrow> 's \<Rightarrow> 's) \<Rightarrow> (string \<Rightarrow> 's \<Rightarrow> 's) \<Rightarrow> (string \<Rightarrow> 's \<Rightarrow> 's) \<Rightarrow> 's \<Rightarrow> 's" where
  "finish destination log_cb status_cb ready_cb s5 =
     ready_cb ''Ready''
       (status_cb (''Finished: '' @ path_name destination)
          (log_cb (''Saved: '' @ path_str destination) s5))"

definition batch_start :: "py_path \<Rightarrow> app \<Rightarrow> app" where
  "batch_start download_dir a =
     log (''Target Directory: '' @ path_str download_dir)
       (log ''--- Batch Download Started ---'' (reset_log (set_ready ''Busy'' a)))"

definition batch_end :: "app \<Rightarrow> app" where
  "batch_end a5 =
     log ''--- Batch Download Finished ---''
       (set_status ''Finished all downloads'' (set_ready ''Ready'' a5))"

text \<open>
  The log lines the transfers of a batch add, as lists: \<open>transfer_lines\<close> is, item after
  item, what \<open>download_file\<close> itself logs for that item when started on an empty
  application state; \<open>batch_lines\<close> is the log of the run up to the moment it is saved.
  \<open>app_append\<close> puts the lines and calls of one application state after those of
  another.
\<close>

definition app_append :: "app \<Rightarrow> app \<Rightarrow> app" where
  "app_append a b = \<lparr>log_lines = log_lines a @ log_lines b, ui = ui a @ ui b\<rparr>"

fun transfer_lines ::
  "(real \<Rightarrow> string) \<Rightarrow> (string \<Rightarrow> string) \<Rightarrow> (py_path \<Rightarrow> string \<Rightarrow> py_path) \<Rightarrow> (nat \<Rightarrow> world)
     \<Rightarrow> py_path \<Rightarrow> nat \<Rightarrow> catalog_item list \<Rightarrow> string list" where
  "transfer_lines fmt name_of joinpath worlds download_dir idx [] = []"
| "transfer_lines fmt name_of joinpath worlds download_dir idx (selected # rest) =
     log_lines (fst (download_file fmt (worlds idx) (url selected)
                       (joinpath download_dir (filename_of name_of selected))
                       log set_status set_ready app_empty))
     @ transfer_lines fmt name_of joinpath worlds download_dir (Suc idx) rest"

definition batch_lines ::
  "(real \<Rightarrow> string) \<Rightarrow> (string \<Rightarrow> string) \<Rightarrow> (py_path \<Rightarrow> string \<Rightarrow> py_path) \<Rightarrow> (nat \<Rightarrow> world)
     \<Rightarrow> py_path \<Rightarrow> catalog_item list \<Rightarrow> string list" where
  "batch_lines fmt name_of joinpath worlds download_dir items =
     [''--- Batch Download Started ---'', ''Target Directory: '' @ path_str download_dir]
     @ transfer_lines fmt name_of joinpath worlds download_dir 1 items
     @ [''--- Batch Download Finished ---'']"

text \<open>A batch of three for the examples: the second transfer gets a 404.\<close>

definition basename :: "string \<Rightarrow> string" where
  "basename s = rev (takeWhile (\<lambda>c. c \<noteq> CHR ''/'') (rev s))"

definition join_dir :: "py_path \<Rightarrow> string \<Rightarrow> py_path" where
  "join_dir dir filename =
     \<lparr>path_str = path_str dir @ ''/'' @ filename, path_name = filename, path_suffix = ''.jar''\<rparr>"

definition plugins_dir :: py_path where
  "plugins_dir = \<lparr>path_str = ''/plugins'', path_name = ''plugins'', path_suffix = []\<rparr>"

definition small_file :: world where
  "small_file =
     \<lparr>http_get = (\<lambda>u. Inr \<lparr>raise_for_status = None, content_length = Inr 4,
                               iter_content = [Chunk ''PK34'' None]\<rparr>),
      open_wb = (\<lambda>p. None)\<rparr>"

definition second_fails :: "nat \<Rightarrow> world" where
  "second_fails idx = (if idx = 2 then not_found else small_file)"

definition example_lines :: "string list" where
  "example_lines =
     [''--- Batch Download Started ---'', ''Target Directory: /plugins'',
      ''Starting download: a.jar'', ''Target path: /plugins/a.jar'', ''Extension: .jar'',
      ''Downloading... %'', ''Saved: /plugins/a.jar'',
      ''Starting download: b.jar'', ''Target path: /plugins/b.jar'', ''Extension: .jar'',
      ''Failed: 404 Client Error: Not Found'',
      ''Starting download: c.jar'', ''Target path: /plugins/c.jar'', ''Extension: .jar'',
      ''Downloading... %'', ''Saved: /plugins/c.jar'',
      ''--- Batch Download Finished ---'']"

subsection \<open>Properties of the batch\<close>

lemma report_progress_attempts:
  "filter is_attempt (ui (snd (snd (report_progress fmt log set_status total_len (d, npl, a)))))
     = filter is_attempt (ui a)"
  by (simp add: report_progress_def Let_def log_def set_status_def)

lemma write_chunks_attempts:
  "filter is_attempt (ui (snd (snd (fst (write_chunks fmt log set_status total_len events (d, npl, a))))))
     = filter is_attempt (ui a)"
proof (induction events arbitrary: d npl a)
  case Nil show ?case by simp
next
  case (Cons ev events)
  show ?case
  proof (cases ev)
    case (IterError exc) then show ?thesis by simp
  next
    case (Chunk chunk write_result)
    obtain d' npl' a' where r: "report_progress fmt log set_status total_len (d + length chunk, npl, a) = (d', npl', a')"
      by (cases "report_progress fmt log set_status total_len (d + length chunk, npl, a)")
    have "filter is_attempt (ui a') = filter is_attempt (ui a)"
      using report_progress_attempts [of fmt total_len "d + length chunk" npl a] by (simp add: r)
    then show ?thesis
      using Cons.IH [of d npl a] Cons.IH [of d' npl' a']
      by (simp add: Chunk r split: option.splits)
  qed
qed

lemma transfer_state:
  "fst (transfer fmt w src_url destination log_cb status_cb ready_cb s0) =
     (case http_get w src_url of
        Inl exc \<Rightarrow> announce destination log_cb status_cb s0
      | Inr response \<Rightarrow>
          (case raise_for_status response of
             Some exc \<Rightarrow> announce destination log_cb status_cb s0
           | None \<Rightarrow>
               (case content_length response of
                  Inl exc \<Rightarrow> announce destination log_cb status_cb s0
                | Inr total_len \<Rightarrow>
                    (case open_wb w (path_str destination) of
                       Some exc \<Rightarrow> announce destination log_cb status_cb s0
                     | None \<Rightarrow>
                         (let r = write_chunks fmt log_cb status_cb total_len (iter_content response)
                                    (0, 5, announce destination log_cb status_cb s0)
                          in case snd r of
                               Some exc \<Rightarrow> snd (snd (fst r))
                             | None \<Rightarrow>
                                 finish destination log_cb status_cb ready_cb (snd (snd (fst r))))))))"
  by (simp add: transfer_def announce_def finish_def Let_def
        split: sum.splits option.splits prod.splits)

lemma announce_attempts:
  "filter is_attempt (ui (announce destination log set_status a)) = filter is_attempt (ui a)"
  by (simp add: announce_def log_def set_status_def)

lemma finish_attempts:
  "filter is_attempt (ui (finish destination log set_status set_ready a)) = filter is_attempt (ui a)"
  by (simp add: finish_def log_def set_status_def set_ready_def)

lemma transfer_attempts:
  "filter is_attempt (ui (fst (transfer fmt w src_url destination log set_status set_ready a)))
     = filter is_attempt (ui a)"
  by (simp add: transfer_state Let_def announce_attempts finish_attempts write_chunks_attempts
        split: sum.splits option.splits)

lemma download_file_attempts:
  "filter is_attempt (ui (fst (download_file fmt w src_url destination log set_status set_ready a)))
     = filter is_attempt (ui a)"
proof -
  have fail: "filter is_attempt (ui (on_failure log set_status set_ready exc b)) = filter is_attempt (ui b)"
    for exc b
    by (simp add: on_failure_def log_def set_status_def set_ready_def)
  show ?thesis
    using transfer_attempts [of fmt w src_url destination a]
    by (simp add: download_file_cases fail split: option.splits)
qed

lemma download_items_result:
  "download_items fmt name_of joinpath worlds download_dir n idx items (a, ok) = (a', ok') \<Longrightarrow>
     (ok' \<longleftrightarrow> ok \<and> (\<forall>i<length items.
         arising (worlds (idx + i)) (url (items ! i))
           (joinpath download_dir (filename_of name_of (items ! i))) = None))
     \<and> filter is_attempt (ui a') = filter is_attempt (ui a) @ attempts name_of n idx items"
proof (induction items arbitrary: idx a ok)
  case Nil
  then show ?case by simp
next
  case (Cons selected rest)
  let ?target = "joinpath download_dir (filename_of name_of selected)"
  let ?a1 = "set_status (starting_status idx n (filename_of name_of selected)) a"
  let ?r = "download_file fmt (worlds idx) (url selected) ?target log set_status set_ready ?a1"
  let ?ok = "ok \<and> arising (worlds idx) (url selected) ?target = None"
  have step: "download_items fmt name_of joinpath worlds download_dir n idx (selected # rest) (a, ok)
        = download_items fmt name_of joinpath worlds download_dir n (Suc idx) rest (fst ?r, ?ok)"
    using download_file_result [of fmt "worlds idx" "url selected" ?target log set_status set_ready ?a1]
    by (cases ?r) (auto simp: Let_def split: sum.splits option.splits)
  have ui1: "filter is_attempt (ui (fst ?r))
        = filter is_attempt (ui a) @ [SetStatus (starting_status idx n (filename_of name_of selected))]"
    by (simp add: download_file_attempts set_status_def starting_status_def)
  from Cons.prems have "download_items fmt name_of joinpath worlds download_dir n (Suc idx) rest (fst ?r, ?ok)
        = (a', ok')" by (simp only: step)
  from Cons.IH [OF this] have
    ih1: "ok' \<longleftrightarrow> ?ok \<and> (\<forall>i<length rest.
         arising (worlds (Suc idx + i)) (url (rest ! i))
           (joinpath download_dir (filename_of name_of (rest ! i))) = None)"
    and ih2: "filter is_attempt (ui a') = filter is_attempt (ui (fst ?r)) @ attempts name_of n (Suc idx) rest"
    by blast+
  have all: "(\<forall>i<length (selected # rest).
         arising (worlds (idx + i)) (url ((selected # rest) ! i))
           (joinpath download_dir (filename_of name_of ((selected # rest) ! i))) = None)
       \<longleftrightarrow> arising (worlds idx) (url selected) ?target = None
          \<and> (\<forall>i<length rest.
         arising (worlds (Suc idx + i)) (url (rest ! i))
           (joinpath download_dir (filename_of name_of (rest ! i))) = None)"
    by (simp add: All_less_Suc2)
  show ?case
    unfolding all using ih1 ih2 ui1 by auto
qed


lemma ensure_dir_attempts:
  "filter is_attempt (ui (fst (fst (ensure_dir lenv a d)))) = filter is_attempt (ui a)"
  by (simp add: ensure_dir_def split: option.splits)

lemma save_log_attempts:
  "filter is_attempt (ui (fst (fst (save_log lenv success a d)))) = filter is_attempt (ui a)"
proof -
  obtain a1 d1 where e: "fst (ensure_dir lenv a d) = (a1, d1)" by (cases "fst (ensure_dir lenv a d)")
  have "filter is_attempt (ui a1) = filter is_attempt (ui a)"
    using ensure_dir_attempts [of lenv a d] by (simp add: e)
  then show ?thesis
    by (simp add: save_log_def e Let_def log_def split: sum.splits)
qed

lemma save_log_written:
  assumes "mkdir_oserror lenv = None" and "write_text_error lenv = None"
  shows "snd (save_log lenv success a d) \<in> set (existing (snd (fst (save_log lenv success a d))))"
proof -
  obtain a1 d1 where e: "fst (ensure_dir lenv a d) = (a1, d1)" by (cases "fst (ensure_dir lenv a d)")
  then obtain files where f: "logs_dir d1 = Some files"
    using assms(1) by (auto simp: ensure_dir_def split: option.splits)
  show ?thesis
    using assms(2) f by (simp add: save_log_def e Let_def write_text_def existing_def)
qed

lemma worker_steps:
  "worker fmt name_of joinpath worlds lenv download_dir items a d =
     (let r = download_items fmt name_of joinpath worlds download_dir (length items) 1 items
                (batch_start download_dir a, True);
          s = save_log lenv (snd r) (batch_end (fst r)) d
      in ((log (''Log saved to logs/'' @ snd s) (fst (fst s)), snd (fst s)), snd r))"
  by (simp add: worker_def batch_start_def batch_end_def Let_def split: prod.splits)

lemma str_nat_1: "str_nat (Suc 0) = ''1''"
  by (simp add: str_nat.simps digit_char_def)

lemma str_nat_2: "str_nat (Suc (Suc 0)) = ''2''"
  by (simp add: str_nat.simps digit_char_def)

lemma str_nat_3: "str_nat (Suc (Suc (Suc 0))) = ''3''"
  by (simp add: str_nat.simps digit_char_def)

lemma app_append_empty: "app_append a app_empty = a"
  by (simp add: app_append_def app_empty_def)

lemma log_append: "log m (app_append a b) = app_append a (log m b)"
  by (simp add: log_def app_append_def)

lemma set_status_append: "set_status m (app_append a b) = app_append a (set_status m b)"
  by (simp add: set_status_def app_append_def)

lemma set_ready_append: "set_ready m (app_append a b) = app_append a (set_ready m b)"
  by (simp add: set_ready_def app_append_def)

lemma report_progress_append:
  "report_progress fmt log set_status total_len (d, npl, app_append a b) =
     (fst (report_progress fmt log set_status total_len (d, npl, b)),
      fst (snd (report_progress fmt log set_status total_len (d, npl, b))),
      app_append a (snd (snd (report_progress fmt log set_status total_len (d, npl, b)))))"
  by (simp add: report_progress_def Let_def log_append set_status_append)

lemma write_chunks_append:
  "write_chunks fmt log set_status total_len events (d, npl, app_append a b) =
     ((fst (fst (write_chunks fmt log set_status total_len events (d, npl, b))),
       fst (snd (fst (write_chunks fmt log set_status total_len events (d, npl, b)))),
       app_append a (snd (snd (fst (write_chunks fmt log set_status total_len events (d, npl, b)))))),
      snd (write_chunks fmt log set_status total_len events (d, npl, b)))"
proof (induction events arbitrary: d npl b)
  case Nil show ?case by simp
next
  case (Cons ev events)
  show ?case
  proof (cases ev)
    case (IterError exc) then show ?thesis by simp
  next
    case (Chunk chunk write_result)
    obtain d' npl' b' where r: "report_progress fmt log set_status total_len (d + length chunk, npl, b) = (d', npl', b')"
      by (cases "report_progress fmt log set_status total_len (d + length chunk, npl, b)")
    have ra: "report_progress fmt log set_status total_len (d + length chunk, npl, app_append a b)
        = (d', npl', app_append a b')"
      by (simp add: report_progress_append r)
    show ?thesis
      using Cons.IH [of d npl b] Cons.IH [of d' npl' b']
      by (simp add: Chunk r ra split: option.splits)
  qed
qed

lemma announce_append:
  "announce destination log set_status (app_append a b)
     = app_append a (announce destination log set_status b)"
  by (simp add: announce_def log_append set_status_append)

lemma finish_append:
  "finish destination log set_status set_ready (app_append a b)
     = app_append a (finish destination log set_status set_ready b)"
  by (simp add: finish_def log_append set_status_append set_ready_append)

lemma transfer_append:
  "fst (transfer fmt w src_url destination log set_status set_ready (app_append a b))
     = app_append a (fst (transfer fmt w src_url destination log set_status set_ready b))"
  by (simp add: transfer_state Let_def announce_append finish_append write_chunks_append
        split: sum.splits option.splits)

lemma on_failure_append:
  "on_failure log set_status set_ready exc (app_append a b)
     = app_append a (on_failure log set_status set_ready exc b)"
  by (simp add: on_failure_def log_append set_status_append set_ready_append)

lemma download_file_append:
  "fst (download_file fmt w src_url destination log set_status set_ready (app_append a b))
     = app_append a (fst (download_file fmt w src_url destination log set_status set_ready b))"
  by (simp add: download_file_cases transfer_append on_failure_append split: option.splits)

lemma download_file_log_lines:
  "log_lines (fst (download_file fmt w src_url destination log set_status set_ready a))
     = log_lines a
       @ log_lines (fst (download_file fmt w src_url destination log set_status set_ready app_empty))"
  using download_file_append [of fmt w src_url destination a app_empty]
  by (simp add: app_append_empty) (simp add: app_append_def)


lemma download_items_log_lines:
  "log_lines (fst (download_items fmt name_of joinpath worlds download_dir n idx items (a, ok)))
     = log_lines a @ transfer_lines fmt name_of joinpath worlds download_dir idx items"
proof (induction items arbitrary: idx a ok)
  case Nil
  show ?case by simp
next
  case (Cons selected rest)
  let ?target = "joinpath download_dir (filename_of name_of selected)"
  let ?a1 = "set_status (starting_status idx n (filename_of name_of selected)) a"
  let ?r = "download_file fmt (worlds idx) (url selected) ?target log set_status set_ready ?a1"
  have step: "fst (download_items fmt name_of joinpath worlds download_dir n idx (selected # rest) (a, ok))
        = fst (download_items fmt name_of joinpath worlds download_dir n (Suc idx) rest
                 (fst ?r, ok \<and> snd ?r = Inr ()))"
    by (cases ?r) (auto simp: Let_def split: sum.splits)
  have l1: "log_lines (fst ?r) = log_lines a
       @ log_lines (fst (download_file fmt (worlds idx) (url selected) ?target
                          log set_status set_ready app_empty))"
    using download_file_log_lines [of fmt "worlds idx" "url selected" ?target ?a1]
    by (simp add: set_status_def)
  show ?case
    unfolding step by (simp add: Cons.IH l1)
qed

lemma save_log_log_prefix:
  "prefix (log_lines a) (log_lines (fst (fst (save_log env success a d))))"
proof -
  obtain a1 d1 where e: "fst (ensure_dir env a d) = (a1, d1)" by (cases "fst (ensure_dir env a d)")
  have ll: "log_lines a1 = log_lines a" using ensure_dir_log_lines [of env a d] by (simp add: e)
  show ?thesis
    by (simp add: save_log_def e Let_def log_def ll split: sum.splits)
qed

lemma download_items_success:
  "snd (download_items fmt name_of joinpath worlds download_dir n idx items (a, ok))
     \<longleftrightarrow> ok \<and> (\<forall>i<length items.
           snd (download_file fmt (worlds (idx + i)) (url (items ! i))
                  (joinpath download_dir (filename_of name_of (items ! i)))
                  log set_status set_ready app_empty) = Inr ())"
proof -
  obtain a' ok' where r: "download_items fmt name_of joinpath worlds download_dir n idx items (a, ok)
      = (a', ok')"
    by (cases "download_items fmt name_of joinpath worlds download_dir n idx items (a, ok)")
  have "snd (download_file fmt w u t log set_status set_ready app_empty) = Inr ()
          \<longleftrightarrow> arising w u t = None" for w u t
    by (simp add: download_file_result split: option.splits)
  then show ?thesis
    using download_items_result [OF r] by (simp add: r)
qed

lemma small_file_lines:
  "log_lines (fst (download_file (\<lambda>p. []) small_file u
       \<lparr>path_str = p, path_name = nm, path_suffix = ''.jar''\<rparr> log set_status set_ready app_empty))
     = [''Starting download: '' @ nm, ''Target path: '' @ p, ''Extension: .jar'',
        ''Downloading... %'', ''Saved: '' @ p]"
  by (simp add: download_file_def transfer_def small_file_def app_empty_def report_progress_def
        log_def set_status_def set_ready_def Let_def)

lemma not_found_lines:
  "log_lines (fst (download_file (\<lambda>p. []) not_found u
       \<lparr>path_str = p, path_name = nm, path_suffix = ''.jar''\<rparr> log set_status set_ready app_empty))
     = [''Starting download: '' @ nm, ''Target path: '' @ p, ''Extension: .jar'',
        ''Failed: 404 Client Error: Not Found'']"
  by (simp add: download_file_def transfer_def not_found_def app_empty_def
        log_def set_status_def set_ready_def Let_def)

lemma example_transfer_lines:
  "transfer_lines (\<lambda>p. []) basename join_dir second_fails plugins_dir 1 cat_abc
     = [''Starting download: a.jar'', ''Target path: /plugins/a.jar'', ''Extension: .jar'',
        ''Downloading... %'', ''Saved: /plugins/a.jar'',
        ''Starting download: b.jar'', ''Target path: /plugins/b.jar'', ''Extension: .jar'',
        ''Failed: 404 Client Error: Not Found'',
        ''Starting download: c.jar'', ''Target path: /plugins/c.jar'', ''Extension: .jar'',
        ''Downloading... %'', ''Saved: /plugins/c.jar'']"
  by (simp add: cat_abc_def second_fails_def join_dir_def plugins_dir_def filename_of_def
        basename_def small_file_lines not_found_lines)

text \<open>
  Claim C6. Whatever each transfer does, the worker hands every item to \<open>download_file\<close>,
  in order: the status line of each attempt is set, and the log holds, item after item,
  the lines \<open>download_file\<close> logs for it. \<open>overall_success\<close> holds exactly when no
  transfer raised. The log is saved under a name \<open>{base}{n}.txt\<close> that is not yet in the
  log directory, with base \<open>successlog\<close> when \<open>overall_success\<close> holds and
  \<open>logerror\<close> when it does not; the last log line names that file, and when the
  directory can be made and written the file holds the lines of the run up to
  \<open>--- Batch Download Finished ---\<close>, each followed by a newline.
\<close>

theorem worker_partial_failure:
  "worker fmt name_of joinpath worlds lenv download_dir items a d = ((a', d'), overall_success) \<Longrightarrow>
     (overall_success \<longleftrightarrow>
        (\<forall>i<length items.
           arising (worlds (Suc i)) (url (items ! i))
             (joinpath download_dir (filename_of name_of (items ! i))) = None))
     \<and> (overall_success \<longleftrightarrow>
        (\<forall>i<length items.
           snd (download_file fmt (worlds (Suc i)) (url (items ! i))
                  (joinpath download_dir (filename_of name_of (items ! i)))
                  log set_status set_ready app_empty) = Inr ()))
     \<and> filter is_attempt (ui a') = filter is_attempt (ui a) @ attempts name_of (length items) 1 items
     \<and> prefix ([''--- Batch Download Started ---'', ''Target Directory: '' @ path_str download_dir]
                 @ transfer_lines fmt name_of joinpath worlds download_dir 1 items
                 @ [''--- Batch Download Finished ---''])
          (log_lines a')
     \<and> (\<exists>n\<ge>1. last (log_lines a')
                 = ''Log saved to logs/''
                     @ candidate (if overall_success then ''successlog'' else ''logerror'') n
             \<and> candidate (if overall_success then ''successlog'' else ''logerror'') n
                 \<notin> set (existing d)
             \<and> (mkdir_oserror lenv = None \<and> write_text_error lenv = None \<longrightarrow>
                  candidate (if overall_success then ''successlog'' else ''logerror'') n
                    \<in> set (existing d')
                  \<and> read_text d' (candidate (if overall_success then ''successlog'' else ''logerror'') n)
                      = Some (concat (map (\<lambda>l. l @ [CHR 0x0A])
                          ([''--- Batch Download Started ---'',
                            ''Target Directory: '' @ path_str download_dir]
                           @ transfer_lines fmt name_of joinpath worlds download_dir 1 items
                           @ [''--- Batch Download Finished ---''])))
                  \<and> log_lines a'
                      = [''--- Batch Download Started ---'',
                         ''Target Directory: '' @ path_str download_dir]
                        @ transfer_lines fmt name_of joinpath worlds download_dir 1 items
                        @ [''--- Batch Download Finished ---'',
                           ''Log saved to logs/''
                             @ candidate (if overall_success then ''successlog'' else ''logerror'') n]))"
proof -
  assume w: "worker fmt name_of joinpath worlds lenv download_dir items a d = ((a', d'), overall_success)"
  define r where "r = download_items fmt name_of joinpath worlds download_dir (length items) 1 items
                (batch_start download_dir a, True)"
  define sv where "sv = save_log lenv (snd r) (batch_end (fst r)) d"
  define bl where "bl = batch_lines fmt name_of joinpath worlds download_dir items"
  have "((log (''Log saved to logs/'' @ snd sv) (fst (fst sv)), snd (fst sv)), snd r)
          = ((a', d'), overall_success)"
    using w unfolding worker_steps Let_def r_def [symmetric] sv_def [symmetric] .
  then have res: "a' = log (''Log saved to logs/'' @ snd sv) (fst (fst sv))" "d' = snd (fst sv)"
    "overall_success = snd r"
    by simp_all
  have di: "download_items fmt name_of joinpath worlds download_dir (length items) 1 items
                (batch_start download_dir a, True) = (fst r, snd r)"
    by (simp add: r_def)
  have ui4: "filter is_attempt (ui (batch_start download_dir a)) = filter is_attempt (ui a)"
    by (simp add: batch_start_def log_def reset_log_def set_ready_def)
  from download_items_result [OF di] have
    ok: "snd r \<longleftrightarrow> (\<forall>i<length items.
           arising (worlds (Suc i)) (url (items ! i))
             (joinpath download_dir (filename_of name_of (items ! i))) = None)"
    and ui5: "filter is_attempt (ui (fst r))
                = filter is_attempt (ui (batch_start download_dir a)) @ attempts name_of (length items) 1 items"
    by simp_all
  have ok2: "snd r \<longleftrightarrow> (\<forall>i<length items.
           snd (download_file fmt (worlds (Suc i)) (url (items ! i))
                  (joinpath download_dir (filename_of name_of (items ! i)))
                  log set_status set_ready app_empty) = Inr ())"
    unfolding r_def
    using download_items_success [of fmt name_of joinpath worlds download_dir "length items" 1 items
        "batch_start download_dir a" True]
    by simp
  have ui8: "filter is_attempt (ui (batch_end (fst r))) = filter is_attempt (ui (fst r))"
    by (simp add: batch_end_def log_def set_status_def set_ready_def)
  have ui9: "filter is_attempt (ui (fst (fst sv))) = filter is_attempt (ui (batch_end (fst r)))"
    unfolding sv_def by (rule save_log_attempts)
  have ui': "filter is_attempt (ui a') = filter is_attempt (ui a) @ attempts name_of (length items) 1 items"
    by (simp add: res(1) log_def ui9 ui8 ui5 ui4)
  have l4: "log_lines (batch_start download_dir a)
      = [''--- Batch Download Started ---'', ''Target Directory: '' @ path_str download_dir]"
    by (simp add: batch_start_def log_def reset_log_def set_ready_def)
  have l5: "log_lines (fst r) = [''--- Batch Download Started ---'',
        ''Target Directory: '' @ path_str download_dir]
      @ transfer_lines fmt name_of joinpath worlds download_dir 1 items"
    unfolding r_def by (simp only: download_items_log_lines l4)
  have l8: "log_lines (batch_end (fst r)) = bl"
    by (simp add: batch_end_def log_def set_status_def set_ready_def l5 bl_def batch_lines_def)
  have pre: "prefix bl (log_lines a')"
  proof -
    have "prefix bl (log_lines (fst (fst sv)))"
      unfolding sv_def l8 [symmetric] by (rule save_log_log_prefix)
    then show ?thesis by (simp add: res(1) log_def)
  qed
  let ?base = "if snd r then ''successlog'' else ''logerror''"
  from save_log_free_name [of lenv "snd r" "batch_end (fst r)" d] obtain n where
    n: "1 \<le> n" "snd sv = candidate ?base n"
       "candidate ?base n \<notin> set (existing d)"
    unfolding sv_def by blast
  have last: "last (log_lines a') = ''Log saved to logs/'' @ candidate ?base n"
    by (simp add: res(1) log_def n(2))
  have healthy: "candidate ?base n \<in> set (existing d')
      \<and> read_text d' (candidate ?base n) = Some (concat (map (\<lambda>l. l @ [CHR 0x0A]) bl))
      \<and> log_lines a' = bl @ [''Log saved to logs/'' @ candidate ?base n]"
    if h: "mkdir_oserror lenv = None \<and> write_text_error lenv = None"
  proof -
    from h have h1: "mkdir_oserror lenv = None" and h2: "write_text_error lenv = None" by simp_all
    from save_log_healthy [OF h1 h2, of "snd r" "batch_end (fst r)" d]
    have "read_text (snd (fst sv)) (snd sv) = Some (concat (map (\<lambda>l. l @ [CHR 0x0A]) bl))"
      and "set (existing (snd (fst sv))) = insert (snd sv) (set (existing d))"
      and "log_lines (fst (fst sv)) = bl"
      unfolding sv_def l8 by simp_all
    then show ?thesis
      by (simp add: res(1,2) n(2) log_def)
  qed
  have bl: "bl = [''--- Batch Download Started ---'', ''Target Directory: '' @ path_str download_dir]
                 @ transfer_lines fmt name_of joinpath worlds download_dir 1 items
                 @ [''--- Batch Download Finished ---'']"
    by (simp add: bl_def batch_lines_def)
  have fin: "bl @ [x] = [''--- Batch Download Started ---'', ''Target Directory: '' @ path_str download_dir]
                 @ transfer_lines fmt name_of joinpath worlds download_dir 1 items
                 @ [''--- Batch Download Finished ---'', x]" for x
    by (simp add: bl)
  show ?thesis
    unfolding res(3) bl [symmetric] fin [symmetric]
    using ok ok2 ui' pre n(1,3) last healthy by blast
qed

theorem worker_partial_failure_witness:
  "snd (worker (\<lambda>p. []) basename join_dir second_fails env_ok plugins_dir cat_abc app_empty disk0) = False
   \<and> filter is_attempt
        (ui (fst (fst (worker (\<lambda>p. []) basename join_dir second_fails env_ok plugins_dir cat_abc
                         app_empty disk0))))
       = [SetStatus ''Starting download (1/3): a.jar'', SetStatus ''Starting download (2/3): b.jar'',
          SetStatus ''Starting download (3/3): c.jar'']
   \<and> (\<exists>n\<ge>1. log_lines (fst (fst (worker (\<lambda>p. []) basename join_dir second_fails env_ok
                                         plugins_dir cat_abc app_empty disk0)))
               = example_lines @ [''Log saved to logs/'' @ candidate ''logerror'' n]
            \<and> read_text (snd (fst (worker (\<lambda>p. []) basename join_dir second_fails env_ok
                                         plugins_dir cat_abc app_empty disk0)))
                 (candidate ''logerror'' n)
               = Some (concat (map (\<lambda>l. l @ [CHR 0x0A]) example_lines)))"
proof -
  obtain a' d' ok where
    w: "worker (\<lambda>p. []) basename join_dir second_fails env_ok plugins_dir cat_abc app_empty disk0
          = ((a', d'), ok)"
    by (metis surj_pair)
  note r1 = worker_partial_failure [OF w, THEN conjunct1]
  note r3 = worker_partial_failure [OF w, THEN conjunct2, THEN conjunct2, THEN conjunct1]
  note r5 = worker_partial_failure [OF w, THEN conjunct2, THEN conjunct2, THEN conjunct2,
      THEN conjunct2]
  have bad: "arising (second_fails (Suc 1)) (url (cat_abc ! 1))
          (join_dir plugins_dir (filename_of basename (cat_abc ! 1))) \<noteq> None"
    by (simp add: second_fails_def not_found_def arising_def cat_abc_def)
  have lt: "(1::nat) < length cat_abc" by (simp add: cat_abc_def)
  have ok: "ok = False"
  proof (rule ccontr)
    assume "ok \<noteq> False"
    then have "ok" by simp
    with r1 have all: "\<forall>i<length cat_abc. arising (second_fails (Suc i)) (url (cat_abc ! i))
          (join_dir plugins_dir (filename_of basename (cat_abc ! i))) = None"
      by (rule iffD1)
    from all [rule_format, OF lt] bad show False by (rule notE [rotated])
  qed
  have len: "length cat_abc = Suc (Suc (Suc 0))" by (simp add: cat_abc_def)
  have e: "filter is_attempt (ui app_empty) = []" by (simp add: app_empty_def)
  have at0: "attempts basename (Suc (Suc (Suc 0))) (Suc 0) cat_abc
       = [SetStatus ''Starting download (1/3): a.jar'', SetStatus ''Starting download (2/3): b.jar'',
          SetStatus ''Starting download (3/3): c.jar'']"
    by (simp add: cat_abc_def starting_status_def filename_of_def basename_def
          str_nat_1 str_nat_2 str_nat_3)
  have at: "filter is_attempt (ui a')
       = [SetStatus ''Starting download (1/3): a.jar'', SetStatus ''Starting download (2/3): b.jar'',
          SetStatus ''Starting download (3/3): c.jar'']"
    using r3 by (simp only: len e at0 One_nat_def append_Nil)
  have healthy: "mkdir_oserror env_ok = None \<and> write_text_error env_ok = None"
    by (simp add: env_ok_def)
  have bl: "[''--- Batch Download Started ---'', ''Target Directory: '' @ path_str plugins_dir]
             @ transfer_lines (\<lambda>p. []) basename join_dir second_fails plugins_dir 1 cat_abc
             @ [''--- Batch Download Finished ---'', x]
           = example_lines @ [x]"
      "[''--- Batch Download Started ---'', ''Target Directory: '' @ path_str plugins_dir]
             @ transfer_lines (\<lambda>p. []) basename join_dir second_fails plugins_dir 1 cat_abc
             @ [''--- Batch Download Finished ---'']
           = example_lines" for x
    by (simp_all only: example_transfer_lines) (simp_all add: example_lines_def plugins_dir_def)
  from r5 obtain n where n: "1 \<le> n"
    and imp: "mkdir_oserror env_ok = None \<and> write_text_error env_ok = None \<longrightarrow>
        candidate (if ok then ''successlog'' else ''logerror'') n \<in> set (existing d')
        \<and> read_text d' (candidate (if ok then ''successlog'' else ''logerror'') n)
            = Some (concat (map (\<lambda>l. l @ [CHR 0x0A])
                ([''--- Batch Download Started ---'', ''Target Directory: '' @ path_str plugins_dir]
                 @ transfer_lines (\<lambda>p. []) basename join_dir second_fails plugins_dir 1 cat_abc
                 @ [''--- Batch Download Finished ---''])))
        \<and> log_lines a'
            = [''--- Batch Download Started ---'', ''Target Directory: '' @ path_str plugins_dir]
              @ transfer_lines (\<lambda>p. []) basename join_dir second_fails plugins_dir 1 cat_abc
              @ [''--- Batch Download Finished ---'',
                 ''Log saved to logs/'' @ candidate (if ok then ''successlog'' else ''logerror'') n]"
    by (elim exE conjE)
  note both = imp [THEN mp, OF healthy, THEN conjunct2]
  have c1: "log_lines a' = example_lines @ [''Log saved to logs/'' @ candidate ''logerror'' n]"
    using both [THEN conjunct2] unfolding bl ok by (simp only: if_False)
  have c2: "read_text d' (candidate ''logerror'' n)
          = Some (concat (map (\<lambda>l. l @ [CHR 0x0A]) example_lines))"
    using both [THEN conjunct1] unfolding bl ok by (simp only: if_False)
  have ex: "\<exists>n\<ge>1. log_lines a' = example_lines @ [''Log saved to logs/'' @ candidate ''logerror'' n]
     \<and> read_text d' (candidate ''logerror'' n)
          = Some (concat (map (\<lambda>l. l @ [CHR 0x0A]) example_lines))"
    using n c1 c2 by (intro exI [of _ n] conjI)
  have p: "snd (worker (\<lambda>p. []) basename join_dir second_fails env_ok plugins_dir cat_abc app_empty disk0) = ok"
    "fst (fst (worker (\<lambda>p. []) basename join_dir second_fails env_ok plugins_dir cat_abc app_empty disk0)) = a'"
    "snd (fst (worker (\<lambda>p. []) basename join_dir second_fails env_ok plugins_dir cat_abc app_empty disk0)) = d'"
    by (simp_all only: w fst_conv snd_conv)
  show ?thesis
    unfolding p using ok at ex by (intro conjI)
qed

section \<open>Modrinth client (modrinth.py, \<open>ModrinthClient\<close>)\<close>

text \<open>
  What \<open>resp.json()\<close> returns, as a Python value: \<open>None\<close>, a bool, a number, a
  string, a list or a dict (the list of its entries; the first entry of a key is the one a
  lookup finds). It is also the type of what the methods return, \<open>JNull\<close> being
  \<open>None\<close> and \<open>JArr []\<close> the empty list. A method returns \<open>Inr\<close> of a value, or
  \<open>Inl\<close> of the exception it raises.
\<close>

datatype json =
    JNull
  | JBool bool
  | JNum real
  | JStr string
  | JArr "json list"
  | JObj "(string \<times> json) list"

text \<open>
  The network is an input: \<open>session_get url params\<close> is what
  \<^verbatim>\<open>self.session.get(url, params=params, timeout=10)\<close> does, an exception or a
  response; a response gives what \<open>raise_for_status()\<close> raises, if anything (for
  \<open>requests\<close>, on the codes 400 to 599), and what \<open>json()\<close> returns or raises.
\<close>

record api_response =
  status_error :: "py_exception option"
  json_result :: "py_exception + json"

type_synonym session = "string \<Rightarrow> (string \<times> string) list \<Rightarrow> py_exception + api_response"

definition BASE_URL :: string where
  "BASE_URL = ''https://api.modrinth.com/v2''"

text \<open>
  The three lines every method has inside its \<^verbatim>\<open>try\<close>:
  \<^verbatim>\<open>
  resp = self.session.get(url, timeout=10)
  resp.raise_for_status()
  ... resp.json()
  \<close>
\<close>

definition fetch_json :: "session \<Rightarrow> string \<Rightarrow> (string \<times> string) list \<Rightarrow> py_exception + json" where
  "fetch_json session_get request_url params =
     (case session_get request_url params of
        Inl exc \<Rightarrow> Inl exc
      | Inr resp \<Rightarrow>
          (case status_error resp of
             Some exc \<Rightarrow> Inl exc
           | None \<Rightarrow> json_result resp))"

definition get_project :: "session \<Rightarrow> string \<Rightarrow> py_exception + json" where
  "get_project session_get slug_or_id =
     (case fetch_json session_get (BASE_URL @ ''/project/'' @ slug_or_id) [] of
        Inr v \<Rightarrow> Inr v
      | Inl exc \<Rightarrow> Inr JNull)"

text \<open>
  \<^verbatim>\<open>
  params = {}
  if loaders:
      params["loaders"] = str(loaders).replace("'", '"')
  if game_versions:
      params["game_versions"] = str(game_versions).replace("'", '"')
  \<close>
  \<open>str_list\<close> stands for Python's \<open>str\<close> of a list of strings.
\<close>

definition quote_json :: "string \<Rightarrow> string" where
  "quote_json s = map (\<lambda>c. if c = CHR 0x27 then CHR 0x22 else c) s"

definition version_params ::
  "(string list \<Rightarrow> string) \<Rightarrow> string list option \<Rightarrow> string list option \<Rightarrow> (string \<times> string) list" where
  "version_params str_list loaders game_versions =
     (case loaders of
        Some (l # ls) \<Rightarrow> [(''loaders'', quote_json (str_list (l # ls)))]
      | _ \<Rightarrow> [])
     @ (case game_versions of
          Some (g # gs) \<Rightarrow> [(''game_versions'', quote_json (str_list (g # gs)))]
        | _ \<Rightarrow> [])"

definition get_versions ::
  "session \<Rightarrow> (string list \<Rightarrow> string) \<Rightarrow> string \<Rightarrow> string list option \<Rightarrow> string list option
     \<Rightarrow> py_exception + json" where
  "get_versions session_get str_list slug_or_id loaders game_versions =
     (case fetch_json session_get (BASE_URL @ ''/project/'' @ slug_or_id @ ''/version'')
             (version_params str_list loaders game_versions) of
        Inr v \<Rightarrow> Inr v
      | Inl exc \<Rightarrow> Inr (JArr []))"

text \<open>
  \<^verbatim>\<open>data.get(key, [])\<close>: a lookup with a default on a dict, an \<open>AttributeError\<close>
  on anything else, which the \<^verbatim>\<open>except Exception\<close> of the caller catches.
\<close>

fun dict_get :: "json \<Rightarrow> string \<Rightarrow> json \<Rightarrow> py_exception + json" where
  "dict_get (JObj entries) key fallback =
     Inr (case map_of entries key of Some v \<Rightarrow> v | None \<Rightarrow> fallback)"
| "dict_get data key fallback = Inl (AttributeError ''object has no attribute get'')"

definition get_version_dependencies :: "session \<Rightarrow> string \<Rightarrow> py_exception + json" where
  "get_version_dependencies session_get version_id =
     (case fetch_json session_get (BASE_URL @ ''/version/'' @ version_id) [] of
        Inl exc \<Rightarrow> Inr (JArr [])
      | Inr data \<Rightarrow>
          (case dict_get data ''dependencies'' (JArr []) of
             Inr v \<Rightarrow> Inr v
           | Inl exc \<Rightarrow> Inr (JArr [])))"

definition get_project_dependencies :: "session \<Rightarrow> string \<Rightarrow> py_exception + json" where
  "get_project_dependencies session_get slug_or_id =
     (case fetch_json session_get (BASE_URL @ ''/project/'' @ slug_or_id @ ''/dependencies'') [] of
        Inl exc \<Rightarrow> Inr (JArr [])
      | Inr data \<Rightarrow>
          (case dict_get data ''projects'' (JArr []) of
             Inr v \<Rightarrow> Inr v
           | Inl exc \<Rightarrow> Inr (JArr [])))"

text \<open>
  \<^verbatim>\<open>
  versions = self.get_versions(slug_or_id, loaders, game_versions)
  if not versions:
      return None
  return versions[0]
  \<close>
  These lines are outside any \<^verbatim>\<open>try\<close>: \<open>truthy\<close> is Python's truth value and
  \<open>first_element\<close> the subscript \<open>[0]\<close>, with the exceptions it raises.
\<close>

fun truthy :: "json \<Rightarrow> bool" where
  "truthy JNull = False"
| "truthy (JBool b) = b"
| "truthy (JNum x) = (x \<noteq> 0)"
| "truthy (JStr s) = (s \<noteq> [])"
| "truthy (JArr xs) = (xs \<noteq> [])"
| "truthy (JObj entries) = (entries \<noteq> [])"

fun first_element :: "json \<Rightarrow> py_exception + json" where
  "first_element (JArr (x # xs)) = Inr x"
| "first_element (JArr []) = Inl (IndexError ''list index out of range'')"
| "first_element (JStr (c # cs)) = Inr (JStr [c])"
| "first_element (JStr []) = Inl (IndexError ''string index out of range'')"
| "first_element (JObj entries) = Inl (KeyError ''0'')"
| "first_element v = Inl (TypeError ''object is not subscriptable'')"

definition resolve_latest_valid_version ::
  "session \<Rightarrow> (string list \<Rightarrow> string) \<Rightarrow> string \<Rightarrow> string list option \<Rightarrow> string list option
     \<Rightarrow> py_exception + json" where
  "resolve_latest_valid_version session_get str_list slug_or_id loaders game_versions =
     (case get_versions session_get str_list slug_or_id loaders game_versions of
        Inl exc \<Rightarrow> Inl exc
      | Inr versions \<Rightarrow>
          (if \<not> truthy versions then Inr JNull else first_element versions))"

text \<open>
  A request has failed when the \<open>get\<close> raised or the response is one
  \<open>raise_for_status\<close> raises for.
\<close>

definition failed :: "session \<Rightarrow> string \<Rightarrow> (string \<times> string) list \<Rightarrow> bool" where
  "failed session_get request_url params =
     (case session_get request_url params of
        Inl exc \<Rightarrow> True
      | Inr resp \<Rightarrow> status_error resp \<noteq> None)"

text \<open>Sessions for the examples.\<close>

definition offline :: session where
  "offline request_url params = Inl (RequestException ''Connection refused'')"

definition two_versions :: session where
  "two_versions request_url params =
     Inr \<lparr>status_error = None,
          json_result = Inr (JArr [JObj [(''id'', JStr ''v2'')], JObj [(''id'', JStr ''v1'')]])\<rparr>"

definition object_body :: session where
  "object_body request_url params =
     Inr \<lparr>status_error = None, json_result = Inr (JObj [(''error'', JStr ''not_found'')])\<rparr>"

definition py_str_list :: "string list \<Rightarrow> string" where
  "py_str_list xs = ''['' @ join '', '' (map (\<lambda>x. [CHR 0x27] @ x @ [CHR 0x27]) xs) @ '']''"

subsection \<open>Properties of the client\<close>

lemma failed_fetch:
  "failed session_get request_url params \<Longrightarrow> \<exists>exc. fetch_json session_get request_url params = Inl exc"
  by (auto simp: failed_def fetch_json_def split: sum.splits option.splits)

text \<open>
  A network outcome on which a public method raises: the request for the versions is
  accepted (no exception, \<open>raise_for_status\<close> silent) and its JSON is a non-empty
  object. \<open>get_versions\<close> returns the object, it is not empty, and \<open>versions[0]\<close>,
  which is outside any \<^verbatim>\<open>try\<close>, raises \<open>KeyError\<close>.
\<close>

theorem modrinth_total_counterexample:
  "\<not> failed object_body (BASE_URL @ ''/project/'' @ ''sodium'' @ ''/version'')
        (version_params py_str_list None None)
   \<and> get_versions object_body py_str_list ''sodium'' None None
        = Inr (JObj [(''error'', JStr ''not_found'')])
   \<and> resolve_latest_valid_version object_body py_str_list ''sodium'' None None
        = Inl (KeyError ''0'')"
  by (simp add: resolve_latest_valid_version_def get_versions_def fetch_json_def object_body_def
        version_params_def failed_def)

text \<open>
  Claim C10, as the code has it. \<open>get_project\<close>, \<open>get_versions\<close>,
  \<open>get_version_dependencies\<close> and \<open>get_project_dependencies\<close> return a value whatever
  the network does. When the request fails, \<open>get_project\<close> and
  \<open>resolve_latest_valid_version\<close> return \<open>None\<close> and the other three return the empty
  list. \<open>resolve_latest_valid_version\<close> returns the first element when \<open>get_versions\<close>
  returns a non-empty list, \<open>None\<close> when it returns anything Python counts as false, and
  it returns a value whenever \<open>get_versions\<close> returns a list, which is what its signature
  declares; on other accepted bodies it is not total.
\<close>

theorem modrinth_total:
  "(\<exists>v. get_project session_get slug_or_id = Inr v)
   \<and> (\<exists>v. get_versions session_get str_list slug_or_id loaders game_versions = Inr v)
   \<and> (\<exists>v. get_version_dependencies session_get version_id = Inr v)
   \<and> (\<exists>v. get_project_dependencies session_get slug_or_id = Inr v)
   \<and> (failed session_get (BASE_URL @ ''/project/'' @ slug_or_id) [] \<longrightarrow>
        get_project session_get slug_or_id = Inr JNull)
   \<and> (failed session_get (BASE_URL @ ''/project/'' @ slug_or_id @ ''/version'')
          (version_params str_list loaders game_versions) \<longrightarrow>
        get_versions session_get str_list slug_or_id loaders game_versions = Inr (JArr [])
        \<and> resolve_latest_valid_version session_get str_list slug_or_id loaders game_versions
              = Inr JNull)
   \<and> (failed session_get (BASE_URL @ ''/version/'' @ version_id) [] \<longrightarrow>
        get_version_dependencies session_get version_id = Inr (JArr []))
   \<and> (failed session_get (BASE_URL @ ''/project/'' @ slug_or_id @ ''/dependencies'') [] \<longrightarrow>
        get_project_dependencies session_get slug_or_id = Inr (JArr []))
   \<and> (get_versions session_get str_list slug_or_id loaders game_versions = Inr (JArr (v # vs)) \<longrightarrow>
        resolve_latest_valid_version session_get str_list slug_or_id loaders game_versions = Inr v)
   \<and> (get_versions session_get str_list slug_or_id loaders game_versions = Inr (JArr xs) \<longrightarrow>
        (\<exists>r. resolve_latest_valid_version session_get str_list slug_or_id loaders game_versions
               = Inr r))
   \<and> (get_versions session_get str_list slug_or_id loaders game_versions = Inr versions
        \<and> \<not> truthy versions \<longrightarrow>
        resolve_latest_valid_version session_get str_list slug_or_id loaders game_versions
          = Inr JNull)"
proof (intro conjI impI)
  show "\<exists>v. get_project session_get slug_or_id = Inr v"
    by (simp add: get_project_def split: sum.splits)
  show "\<exists>v. get_versions session_get str_list slug_or_id loaders game_versions = Inr v"
    by (simp add: get_versions_def split: sum.splits)
  show "\<exists>v. get_version_dependencies session_get version_id = Inr v"
    by (simp add: get_version_dependencies_def split: sum.splits)
  show "\<exists>v. get_project_dependencies session_get slug_or_id = Inr v"
    by (simp add: get_project_dependencies_def split: sum.splits)
next
  assume "failed session_get (BASE_URL @ ''/project/'' @ slug_or_id) []"
  then show "get_project session_get slug_or_id = Inr JNull"
    using failed_fetch by (fastforce simp: get_project_def)
next
  assume f: "failed session_get (BASE_URL @ ''/project/'' @ slug_or_id @ ''/version'')
          (version_params str_list loaders game_versions)"
  then show g: "get_versions session_get str_list slug_or_id loaders game_versions = Inr (JArr [])"
    using failed_fetch by (fastforce simp: get_versions_def)
  show "resolve_latest_valid_version session_get str_list slug_or_id loaders game_versions = Inr JNull"
    by (simp add: resolve_latest_valid_version_def g)
next
  assume "failed session_get (BASE_URL @ ''/version/'' @ version_id) []"
  then show "get_version_dependencies session_get version_id = Inr (JArr [])"
    using failed_fetch by (fastforce simp: get_version_dependencies_def)
next
  assume "failed session_get (BASE_URL @ ''/project/'' @ slug_or_id @ ''/dependencies'') []"
  then show "get_project_dependencies session_get slug_or_id = Inr (JArr [])"
    using failed_fetch by (fastforce simp: get_project_dependencies_def)
next
  assume "get_versions session_get str_list slug_or_id loaders game_versions = Inr (JArr (v # vs))"
  then show "resolve_latest_valid_version session_get str_list slug_or_id loaders game_versions = Inr v"
    by (simp add: resolve_latest_valid_version_def)
next
  assume "get_versions session_get str_list slug_or_id loaders game_versions = Inr (JArr xs)"
  then show "\<exists>r. resolve_latest_valid_version session_get str_list slug_or_id loaders game_versions
               = Inr r"
    by (cases xs) (simp_all add: resolve_latest_valid_version_def)
next
  assume "get_versions session_get str_list slug_or_id loaders game_versions = Inr versions
        \<and> \<not> truthy versions"
  then show "resolve_latest_valid_version session_get str_list slug_or_id loaders game_versions
          = Inr JNull"
    by (simp add: resolve_latest_valid_version_def)
qed

theorem modrinth_total_witness:
  "failed offline (BASE_URL @ ''/project/'' @ ''sodium'') []
   \<and> get_project offline ''sodium'' = Inr JNull
   \<and> get_versions offline py_str_list ''sodium'' (Some [''fabric'']) None = Inr (JArr [])
   \<and> resolve_latest_valid_version offline py_str_list ''sodium'' (Some [''fabric'']) None = Inr JNull
   \<and> get_version_dependencies offline ''abc'' = Inr (JArr [])
   \<and> get_project_dependencies offline ''sodium'' = Inr (JArr [])
   \<and> get_versions two_versions py_str_list ''sodium'' (Some [''fabric'']) None
        = Inr (JArr [JObj [(''id'', JStr ''v2'')], JObj [(''id'', JStr ''v1'')]])
   \<and> resolve_latest_valid_version two_versions py_str_list ''sodium'' (Some [''fabric'']) None
        = Inr (JObj [(''id'', JStr ''v2'')])"
proof -
  have f: "failed offline u p" for u p by (simp add: failed_def offline_def)
  have g: "get_versions two_versions py_str_list ''sodium'' (Some [''fabric'']) None
        = Inr (JArr (JObj [(''id'', JStr ''v2'')] # [JObj [(''id'', JStr ''v1'')]]))"
    by (simp add: get_versions_def fetch_json_def two_versions_def)
  note off = modrinth_total [where session_get = offline and slug_or_id = "''sodium''"
      and str_list = py_str_list and loaders = "Some [''fabric'']" and game_versions = None
      and version_id = "''abc''"]
  note two = modrinth_total [where session_get = two_versions and slug_or_id = "''sodium''"
      and str_list = py_str_list and loaders = "Some [''fabric'']" and game_versions = None
      and v = "JObj [(''id'', JStr ''v2'')]" and vs = "[JObj [(''id'', JStr ''v1'')]]"]
  have "resolve_latest_valid_version two_versions py_str_list ''sodium'' (Some [''fabric'']) None
        = Inr (JObj [(''id'', JStr ''v2'')])"
    using g two by blast
  moreover have "get_project offline ''sodium'' = Inr JNull"
    "get_versions offline py_str_list ''sodium'' (Some [''fabric'']) None = Inr (JArr [])"
    "resolve_latest_valid_version offline py_str_list ''sodium'' (Some [''fabric'']) None = Inr JNull"
    "get_version_dependencies offline ''abc'' = Inr (JArr [])"
    "get_project_dependencies offline ''sodium'' = Inr (JArr [])"
    using f off by blast+
  ultimately show ?thesis using f g by simp
qed

lemma version_params_example:
  "version_params py_str_list (Some [''fabric'', ''quilt'']) (Some [])
     = [(''loaders'', [CHR ''['', CHR 0x22] @ ''fabric'' @ [CHR 0x22] @ '', '' @ [CHR 0x22] @ ''quilt'' @ [CHR 0x22] @ '']'')]"
  by (simp add: version_params_def py_str_list_def quote_json_def)

end
